theory Spec2Isabelle
  imports Main "HOL-Library.AList" "HOL-Library.Char_ord" "HOL-Library.List_Lexorder"
begin

section \<open>CoverMonkey: the coverage engine of Coverage.js\<close>

text \<open>
  A shallow embedding of \<^verbatim>\<open>src/Coverage.js\<close>. JavaScript strings are modelled as
  \<open>string\<close> (lists of 8-bit characters, so the input alphabet is Latin-1), JavaScript
  numbers that hold addresses, line numbers and counts as unbounded integers (exact in
  the source as long as they stay below \<open>2^53\<close>) together with the special values the
  code can produce (\<open>NaN\<close>, \<open>Infinity\<close>, \<open>undefined\<close>), objects used as dictionaries as
  association lists in insertion order, and every \<^verbatim>\<open>TypeError\<close> the source can raise
  as the left summand of a result.
\<close>

subsection \<open>JavaScript values\<close>

datatype error = TypeError

datatype jsnum = Num int | Infinity | NaN | Undefined

text \<open>\<^verbatim>\<open>a + b\<close> on numbers.\<close>

fun js_add :: "jsnum \<Rightarrow> jsnum \<Rightarrow> jsnum" where
  "js_add (Num a) (Num b) = Num (a + b)"
| "js_add Infinity (Num b) = Infinity"
| "js_add (Num a) Infinity = Infinity"
| "js_add Infinity Infinity = Infinity"
| "js_add _ _ = NaN"

text \<open>\<^verbatim>\<open>a === b\<close>: \<open>NaN\<close> is equal to nothing, itself included.\<close>

fun strict_eq :: "jsnum \<Rightarrow> jsnum \<Rightarrow> bool" where
  "strict_eq (Num a) (Num b) = (a = b)"
| "strict_eq Infinity Infinity = True"
| "strict_eq Undefined Undefined = True"
| "strict_eq _ _ = False"

text \<open>\<^verbatim>\<open>Math.min(a, b)\<close> and \<^verbatim>\<open>Math.max(a, b)\<close>.\<close>

fun js_min :: "jsnum \<Rightarrow> jsnum \<Rightarrow> jsnum" where
  "js_min (Num a) (Num b) = Num (min a b)"
| "js_min Infinity (Num b) = Num b"
| "js_min (Num a) Infinity = Num a"
| "js_min Infinity Infinity = Infinity"
| "js_min _ _ = NaN"

fun js_max :: "jsnum \<Rightarrow> jsnum \<Rightarrow> jsnum" where
  "js_max (Num a) (Num b) = Num (max a b)"
| "js_max Infinity (Num b) = Infinity"
| "js_max (Num a) Infinity = Infinity"
| "js_max Infinity Infinity = Infinity"
| "js_max _ _ = NaN"

text \<open>\<^verbatim>\<open>a > b\<close> and \<^verbatim>\<open>a >= b\<close>: every comparison with \<open>NaN\<close> or \<open>undefined\<close> is false.\<close>

fun js_gt :: "jsnum \<Rightarrow> jsnum \<Rightarrow> bool" where
  "js_gt (Num a) (Num b) = (a > b)"
| "js_gt Infinity (Num b) = True"
| "js_gt _ _ = False"

fun js_ge :: "jsnum \<Rightarrow> jsnum \<Rightarrow> bool" where
  "js_ge (Num a) (Num b) = (a \<ge> b)"
| "js_ge Infinity (Num b) = True"
| "js_ge Infinity Infinity = True"
| "js_ge _ _ = False"

subsection \<open>Characters, decimal numerals and the string helpers\<close>

text \<open>The regular-expression classes \<^verbatim>\<open>\d\<close>, \<^verbatim>\<open>\w\<close> and \<^verbatim>\<open>\s\<close> on 8-bit characters, and the
  line terminators that \<^verbatim>\<open>.\<close> refuses.\<close>

definition is_digit :: "char \<Rightarrow> bool" where
  "is_digit c = (c \<in> set ''0123456789'')"

definition is_word :: "char \<Rightarrow> bool" where
  "is_word c = (c \<in> set ''abcdefghijklmnopqrstuvwxyzABCDEFGHIJKLMNOPQRSTUVWXYZ0123456789_'')"

definition is_space :: "char \<Rightarrow> bool" where
  "is_space c = (c \<in> set [CHR 0x09, CHR 0x0A, CHR 0x0B, CHR 0x0C, CHR 0x0D, CHR 0x20, CHR 0xA0])"

definition is_line_terminator :: "char \<Rightarrow> bool" where
  "is_line_terminator c = (c \<in> set [CHR 0x0A, CHR 0x0D])"

definition digit_val :: "char \<Rightarrow> nat" where
  "digit_val c = of_char c - 48"

definition digit_char :: "nat \<Rightarrow> char" where
  "digit_char d = ''0123456789'' ! d"

text \<open>The value of a string of decimal digits.\<close>

definition nat_of_digits :: "string \<Rightarrow> nat" where
  "nat_of_digits ds = foldl (\<lambda>a c. 10 * a + digit_val c) 0 ds"

text \<open>\<^verbatim>\<open>String(n)\<close> for a non-negative integer: its decimal numeral, without leading zeros.\<close>

fun string_of_nat :: "nat \<Rightarrow> string" where
  "string_of_nat n =
     (if n < 10 then [digit_char n] else string_of_nat (n div 10) @ [digit_char (n mod 10)])"

declare string_of_nat.simps [simp del]

text \<open>\<^verbatim>\<open>parseInt(v, 10)\<close>. Every argument the source passes is a capture of \<^verbatim>\<open>\d+\<close>, one of the
  slash-separated pieces of such a capture, or \<^verbatim>\<open>undefined\<close> (a missing piece, written
  \<open>None\<close>), which parses to \<open>NaN\<close>.\<close>

definition parseInt :: "string option \<Rightarrow> jsnum" where
  "parseInt v =
     (case v of
        None \<Rightarrow> NaN
      | Some s \<Rightarrow>
          (let ds = takeWhile is_digit s
           in if ds = [] then NaN else Num (int (nat_of_digits ds))))"

text \<open>\<^verbatim>\<open>s.split(sep)\<close> for a one-character separator: an empty string gives one empty piece.\<close>

fun split_on :: "char \<Rightarrow> string \<Rightarrow> string list" where
  "split_on sep [] = [[]]"
| "split_on sep (c # cs) =
     (if c = sep then [] # split_on sep cs
      else (case split_on sep cs of
              [] \<Rightarrow> [[c]]
            | w # ws \<Rightarrow> (c # w) # ws))"

text \<open>\<^verbatim>\<open>xs[i]\<close> on an array: \<^verbatim>\<open>undefined\<close> out of range.\<close>

definition nth_opt :: "'a list \<Rightarrow> nat \<Rightarrow> 'a option" where
  "nth_opt xs i = (if i < length xs then Some (xs ! i) else None)"

text \<open>\<^verbatim>\<open>xs.join(sep)\<close>.\<close>

fun join :: "string \<Rightarrow> string list \<Rightarrow> string" where
  "join sep [] = []"
| "join sep [x] = x"
| "join sep (x # y # ys) = x @ sep @ join sep (y # ys)"

subsection \<open>The three line patterns\<close>

text \<open>\<^verbatim>\<open>/^--- SCRIPT (.*):(\d+) ---$/\<close>. The line number is the run of digits before the final
  \<^verbatim>\<open>" ---"\<close>; it must follow a colon, and the file name before that colon holds no line
  terminator. The result is the pair of captures.\<close>

definition SCRIPT_START :: "string \<Rightarrow> (string \<times> string) option" where
  "SCRIPT_START s =
     (if take 11 s = ''--- SCRIPT '' \<and> 15 \<le> length s \<and> drop (length s - 4) s = '' ---''
      then
        (let body = take (length s - 15) (drop 11 s);
             digits = rev (takeWhile is_digit (rev body));
             front = take (length body - length digits) body
         in if digits \<noteq> [] \<and> front \<noteq> [] \<and> last front = CHR '':''
               \<and> \<not> list_ex is_line_terminator (butlast front)
            then Some (butlast front, digits) else None)
      else None)"

text \<open>\<^verbatim>\<open>/^--- END SCRIPT/\<close>.\<close>

definition SCRIPT_END :: "string \<Rightarrow> bool" where
  "SCRIPT_END s = (take 14 s = ''--- END SCRIPT'')"

text \<open>The longest prefix of the form \<^verbatim>\<open>(?:\/\d+)*\<close>.\<close>

function slash_fields :: "string \<Rightarrow> string" where
  "slash_fields s =
     (case s of
        [] \<Rightarrow> []
      | c # cs \<Rightarrow>
          (if c = CHR ''/'' \<and> takeWhile is_digit cs \<noteq> []
           then c # takeWhile is_digit cs @ slash_fields (dropWhile is_digit cs)
           else []))"
  by pat_completeness auto
termination
  by (relation "measure length") (auto simp: length_dropWhile_le less_Suc_eq_le)

declare slash_fields.simps [simp del]

text \<open>\<^verbatim>\<open>/^(\d+):(\d+(?:\/\d+)+)\s+x\s+(\d+)\s+(.*)$/\<close>. Every quantifier of the pattern is followed
  by a character outside its class, so the greedy scan below is the only way to match. The
  result is the four captures: address, count group, source line, assembly text.\<close>

definition SCRIPT_DATA :: "string \<Rightarrow> (string \<times> string \<times> string \<times> string) option" where
  "SCRIPT_DATA s =
     (let m1 = takeWhile is_digit s; r1 = dropWhile is_digit s
      in if m1 = [] then None
         else (case r1 of
            [] \<Rightarrow> None
          | c # r2 \<Rightarrow>
             (if c \<noteq> CHR '':'' then None
              else
               (let d0 = takeWhile is_digit r2;
                    fs = slash_fields (dropWhile is_digit r2);
                    m2 = d0 @ fs;
                    r3 = drop (length m2) r2;
                    r4 = dropWhile is_space r3
                in if d0 = [] \<or> fs = [] \<or> r4 = r3 then None
                   else (case r4 of
                      [] \<Rightarrow> None
                    | x # r5 \<Rightarrow>
                       (let r6 = dropWhile is_space r5;
                            m3 = takeWhile is_digit r6;
                            r7 = dropWhile is_digit r6;
                            m4 = dropWhile is_space r7
                        in if x \<noteq> CHR ''x'' \<or> r6 = r5 \<or> m3 = [] \<or> m4 = r7
                              \<or> list_ex is_line_terminator m4
                           then None
                           else Some (m1, m2, m3, m4)))))))"

subsection \<open>Scripts and their instructions\<close>

text \<open>An instruction (\<^verbatim>\<open>opcode\<close> object). The three flags are absent (\<^verbatim>\<open>undefined\<close>, falsy) until
  the reachability analysis sets them to \<^verbatim>\<open>true\<close>; the flag fields \<^verbatim>\<open>reachable\<close> and
  \<^verbatim>\<open>entrypoint\<close> carry the prefix \<open>op_\<close> here, since the function \<^verbatim>\<open>reachable\<close> and the
  script's \<^verbatim>\<open>entrypoint\<close> keep the plain names.\<close>

record opcode =
  pc :: nat
  count :: jsnum
  srcline :: nat
  assembly :: string
  op_reachable :: bool
  fallsthrough :: bool
  op_entrypoint :: bool

text \<open>A \<^verbatim>\<open>Script\<close> object. \<^verbatim>\<open>pcToOpcodeIndex\<close> is an object used as a dictionary: its keys are
  the decimal numerals of the addresses. A field that was never assigned is \<open>None\<close>.
  \<^verbatim>\<open>parseData\<close> builds its parser without a remap function, so \<^verbatim>\<open>remap\<close> and
  \<^verbatim>\<open>rawfilename\<close> are left out.\<close>

record script =
  opcodes :: "opcode list"
  pcToOpcodeIndex :: "(string \<times> nat) list"
  filename :: "string option"
  startline :: "nat option"
  name :: "string option"
  entrypoint :: "nat option"

definition new_script :: script where
  "new_script = \<lparr>opcodes = [], pcToOpcodeIndex = [], filename = None, startline = None,
                  name = None, entrypoint = None\<rparr>"

text \<open>\<^verbatim>\<open>String(v)\<close> for a field that may be \<^verbatim>\<open>undefined\<close>.\<close>

definition str_opt :: "string option \<Rightarrow> string" where
  "str_opt v = (case v of None \<Rightarrow> ''undefined'' | Some s \<Rightarrow> s)"

definition num_opt :: "nat option \<Rightarrow> string" where
  "num_opt v = (case v of None \<Rightarrow> ''undefined'' | Some n \<Rightarrow> string_of_nat n)"

text \<open>The instruction built from the captures of an instruction line: the count is the sum
  of the first three slash-separated pieces of the count group, whatever their number; the
  text of a \<^verbatim>\<open>lambda\<close> or \<^verbatim>\<open>deflocalfun\<close> instruction is cut to its mnemonic.\<close>

definition new_opcode :: "string \<times> string \<times> string \<times> string \<Rightarrow> opcode" where
  "new_opcode m =
     (case m of (m1, m2, m3, m4) \<Rightarrow>
        (let counts = split_on CHR ''/'' m2;
             asm1 = (if take 7 m4 = ''lambda '' then ''lambda'' else m4);
             asm2 = (if take 12 asm1 = ''deflocalfun '' then ''deflocalfun'' else asm1)
         in \<lparr>pc = nat_of_digits m1,
             count = js_add (js_add (parseInt (nth_opt counts 0)) (parseInt (nth_opt counts 1)))
                            (parseInt (nth_opt counts 2)),
             srcline = nat_of_digits m3,
             assembly = asm2,
             op_reachable = False, fallsthrough = False, op_entrypoint = False\<rparr>))"

text \<open>\<^verbatim>\<open>script.opcodes[script.opcodes.length-1].assembly += dataline\<close>; with no instruction yet
  the array read is \<^verbatim>\<open>undefined\<close> and the property access raises.\<close>

definition append_assembly :: "opcode list \<Rightarrow> string \<Rightarrow> error + opcode list" where
  "append_assembly ops dataline =
     (if ops = [] then Inl TypeError
      else Inr (butlast ops @ [(last ops)\<lparr>assembly := assembly (last ops) @ dataline\<rparr>]))"

text \<open>The body of the \<^verbatim>\<open>lines.forEach\<close> of the \<^verbatim>\<open>Script\<close> constructor, for one line.\<close>

definition Script_line :: "script \<Rightarrow> string \<Rightarrow> error + script" where
  "Script_line script dataline =
     (case SCRIPT_START dataline of
        Some (file, ln) \<Rightarrow>
          Inr (script\<lparr>filename := Some file, startline := Some (nat_of_digits ln),
                      name := Some (file @ '':'' @ string_of_nat (nat_of_digits ln))\<rparr>)
      | None \<Rightarrow>
          if SCRIPT_END dataline then Inr script
          else if dataline = ''main:'' then
            Inr (script\<lparr>entrypoint := Some (length (opcodes script))\<rparr>)
          else (case SCRIPT_DATA dataline of
             Some m \<Rightarrow>
               (let opcode = new_opcode m
                in Inr (script\<lparr>pcToOpcodeIndex :=
                                  AList.update (string_of_nat (pc opcode)) (length (opcodes script))
                                    (pcToOpcodeIndex script),
                                opcodes := opcodes script @ [opcode]\<rparr>))
           | None \<Rightarrow>
               if nth_opt dataline 0 = Some (CHR 0x09) then
                 (case append_assembly (opcodes script) dataline of
                    Inl e \<Rightarrow> Inl e
                  | Inr ops \<Rightarrow> Inr (script\<lparr>opcodes := ops\<rparr>))
               else Inr script))"

fun Script_lines :: "script \<Rightarrow> string list \<Rightarrow> error + script" where
  "Script_lines script [] = Inr script"
| "Script_lines script (dataline # rest) =
     (case Script_line script dataline of
        Inl e \<Rightarrow> Inl e
      | Inr script' \<Rightarrow> Script_lines script' rest)"

text \<open>\<^verbatim>\<open>new Coverage.Script(lines)\<close>.\<close>

definition Script :: "string list \<Rightarrow> error + script" where
  "Script lines = Script_lines new_script lines"

text \<open>\<^verbatim>\<open>Script.prototype.toString\<close>: the structural signature of a script.\<close>

definition opcode_string :: "opcode \<Rightarrow> string" where
  "opcode_string opcode =
     string_of_nat (pc opcode) @ '':'' @ string_of_nat (srcline opcode) @ '':'' @ assembly opcode"

definition toString :: "script \<Rightarrow> string" where
  "toString script =
     str_opt (name script) @ '':'' @ num_opt (entrypoint script) @ [CHR 0x0A]
       @ join [CHR 0x0A] (map opcode_string (opcodes script))"

text \<open>\<^verbatim>\<open>Script.prototype.addCounts\<close>: the loop runs over the instructions of \<^verbatim>\<open>this\<close>; reading
  \<^verbatim>\<open>that.opcodes[i].count\<close> raises when \<^verbatim>\<open>that\<close> has fewer instructions.\<close>

fun addCounts_loop :: "opcode list \<Rightarrow> opcode list \<Rightarrow> error + opcode list" where
  "addCounts_loop [] that_ops = Inr []"
| "addCounts_loop (a # this_ops) [] = Inl TypeError"
| "addCounts_loop (a # this_ops) (b # that_ops) =
     (case addCounts_loop this_ops that_ops of
        Inl e \<Rightarrow> Inl e
      | Inr r \<Rightarrow> Inr (a\<lparr>count := js_add (count a) (count b)\<rparr> # r))"

definition addCounts :: "script \<Rightarrow> script \<Rightarrow> error + script" where
  "addCounts this that =
     (case addCounts_loop (opcodes this) (opcodes that) of
        Inl e \<Rightarrow> Inl e
      | Inr ops \<Rightarrow> Inr (this\<lparr>opcodes := ops\<rparr>))"

subsection \<open>Reachability\<close>

text \<open>The four mnemonic tables are object literals, and the code tests membership with
  \<^verbatim>\<open>op in table\<close>, which also finds the properties every object inherits from
  \<^verbatim>\<open>Object.prototype\<close> (the names below are those of the ECMAScript standard).\<close>

definition object_prototype_keys :: "string list" where
  "object_prototype_keys =
     [''constructor'', ''toString'', ''toLocaleString'', ''valueOf'', ''hasOwnProperty'',
      ''isPrototypeOf'', ''propertyIsEnumerable'', ''__defineGetter__'', ''__defineSetter__'',
      ''__lookupGetter__'', ''__lookupSetter__'', ''__proto__'']"

definition js_in :: "string \<Rightarrow> string list \<Rightarrow> bool" where
  "js_in key own_keys = (key \<in> set own_keys \<or> key \<in> set object_prototype_keys)"

definition switches :: "string list" where
  "switches = [''tableswitch'', ''lookupswitch'', ''tableswitchx'', ''lookupswitchx'']"

definition terminators :: "string list" where
  "terminators = [''stop'', ''return'', ''throw'', ''retrval'', ''retsub'']"

definition unconditionals :: "string list" where
  "unconditionals = [''goto'', ''gotox'', ''default'', ''defaultx'', ''filter'']"

definition conditionals :: "string list" where
  "conditionals =
     [''ifeq'', ''ifeqx'', ''ifne'', ''ifnex'', ''or'', ''orx'', ''and'', ''andx'', ''gosub'',
      ''gosubx'', ''case'', ''casex'', ''ifcantcalltop'', ''endfilter'', ''try'']"

definition nonlinear :: "string list" where
  "nonlinear = terminators @ switches @ conditionals @ unconditionals"

definition linear :: "string \<Rightarrow> bool" where
  "linear op = (\<not> js_in op nonlinear)"

text \<open>\<^verbatim>\<open>assembly.match(/(\w+)/)\<close>: the first run of word characters, \<open>None\<close> when there is none
  (the source then raises on \<^verbatim>\<open>null[1]\<close>).\<close>

definition first_word :: "string \<Rightarrow> string option" where
  "first_word s =
     (let r = dropWhile (\<lambda>c. \<not> is_word c) s
      in if r = [] then None else Some (takeWhile is_word r))"

text \<open>\<^verbatim>\<open>assembly.match(/^\w+\s+(\d+)/)\<close>: the capture, \<open>None\<close> when the text does not match.\<close>

definition branch_target :: "string \<Rightarrow> string option" where
  "branch_target asm =
     (let r1 = dropWhile is_word asm;
          r2 = dropWhile is_space r1;
          d = takeWhile is_digit r2
      in if takeWhile is_word asm = [] \<or> r2 = r1 \<or> d = [] then None else Some d)"

text \<open>The inner function \<^verbatim>\<open>branchIndex\<close>: \<^verbatim>\<open>null\<close> when the text holds no target, else the
  entry of the address index under the captured string, which is \<^verbatim>\<open>undefined\<close> when the
  index has no such key. Both are \<open>None\<close>: the callers only test the result for truth or
  use it as an array index.\<close>

definition branchIndex :: "script \<Rightarrow> string \<Rightarrow> nat option" where
  "branchIndex script asm =
     (case branch_target asm of
        None \<Rightarrow> None
      | Some d \<Rightarrow> map_of (pcToOpcodeIndex script) d)"

text \<open>\<^verbatim>\<open>cases[0].match(/ffset (\d+)/)\<close>: the digits after the first \<^verbatim>\<open>"ffset "\<close> that a digit
  follows.\<close>

fun find_ffset :: "string \<Rightarrow> string option" where
  "find_ffset [] = None"
| "find_ffset (c # cs) =
     (if take 6 (c # cs) = ''ffset '' \<and> takeWhile is_digit (drop 6 (c # cs)) \<noteq> []
      then Some (takeWhile is_digit (drop 6 (c # cs)))
      else find_ffset cs)"

text \<open>\<^verbatim>\<open>cases[i].match(/: (\d+)$/)\<close>: the digits that end the text, when \<^verbatim>\<open>": "\<close> stands before
  them.\<close>

definition case_offset :: "string \<Rightarrow> string option" where
  "case_offset s =
     (let d = rev (takeWhile is_digit (rev s));
          front = take (length s - length d) s
      in if d \<noteq> [] \<and> 2 \<le> length front \<and> drop (length front - 2) front = '': ''
         then Some d else None)"

text \<open>The three lines \<^verbatim>\<open>offset = parseInt(...); absolute = opcode.pc + offset;
  index = script.pcToOpcodeIndex[absolute]\<close> that the switch branch runs for the default
  offset and for every case: the key of the address index is the decimal numeral of the
  sum.\<close>

definition switch_index :: "script \<Rightarrow> nat \<Rightarrow> string \<Rightarrow> nat option" where
  "switch_index script pc0 d =
     map_of (pcToOpcodeIndex script) (string_of_nat (pc0 + nat_of_digits d))"

text \<open>Assignments to the flags of the instruction at a position.\<close>

definition set_reachable :: "script \<Rightarrow> nat \<Rightarrow> script" where
  "set_reachable script i =
     script\<lparr>opcodes := (opcodes script)[i := (opcodes script ! i)\<lparr>op_reachable := True\<rparr>]\<rparr>"

definition set_fallsthrough :: "script \<Rightarrow> nat \<Rightarrow> script" where
  "set_fallsthrough script i =
     script\<lparr>opcodes := (opcodes script)[i := (opcodes script ! i)\<lparr>fallsthrough := True\<rparr>]\<rparr>"

definition set_entrypoint :: "script \<Rightarrow> nat \<Rightarrow> script" where
  "set_entrypoint script i =
     script\<lparr>opcodes := (opcodes script)[i := (opcodes script ! i)\<lparr>op_entrypoint := True\<rparr>]\<rparr>"

text \<open>The \<^verbatim>\<open>while\<close> loop of \<^verbatim>\<open>reachable\<close>, with the test that follows it. The loop ends by
  \<^verbatim>\<open>return\<close> (on an instruction that is already marked, or past the last instruction), or
  by \<^verbatim>\<open>break\<close> at a non-linear instruction, with the position and the mnemonic.\<close>

datatype walk_result = Returned script | Broke script nat string

function walk :: "script \<Rightarrow> nat \<Rightarrow> error + walk_result" where
  "walk script opcodeIndex =
     (if opcodeIndex < length (opcodes script) then
        (if op_reachable (opcodes script ! opcodeIndex) then Inr (Returned script)
         else
           (case first_word (assembly (opcodes script ! opcodeIndex)) of
              None \<Rightarrow> Inl TypeError
            | Some op \<Rightarrow>
                if \<not> linear op then Inr (Broke (set_reachable script opcodeIndex) opcodeIndex op)
                else walk (set_fallsthrough (set_reachable script opcodeIndex) opcodeIndex)
                          (opcodeIndex + 1)))
      else Inr (Returned script))"
  by pat_completeness auto
termination
  by (relation "measure (\<lambda>(script, opcodeIndex). length (opcodes script) - opcodeIndex)")
     (auto simp: set_fallsthrough_def set_reachable_def)

declare walk.simps [simp del]

text \<open>The function \<^verbatim>\<open>reachable(script, opcodeIndex)\<close>. The first argument of the model bounds
  the depth of the recursion: \<open>None\<close> means that the bound was reached, \<open>Some (Inl e)\<close> that
  the source raises, \<open>Some (Inr script')\<close> that it returns, with the flags it has set. The
  index is \<open>None\<close> when the source passes \<^verbatim>\<open>null\<close> or \<^verbatim>\<open>undefined\<close>; reading
  \<^verbatim>\<open>script.opcodes[opcodeIndex]\<close> then gives \<^verbatim>\<open>undefined\<close>, as it does for an index past the
  end, and the assignment \<^verbatim>\<open>opcode.entrypoint = true\<close> raises. \<open>reachable_cases\<close> is the
  \<^verbatim>\<open>for\<close> loop over the case lines of a switch.\<close>

fun reachable :: "nat \<Rightarrow> script \<Rightarrow> nat option \<Rightarrow> (error + script) option"
  and reachable_cases :: "nat \<Rightarrow> script \<Rightarrow> nat \<Rightarrow> string list \<Rightarrow> (error + script) option"
where
  "reachable 0 script opcodeIndex = None"
| "reachable (Suc fuel) script opcodeIndex =
     (case opcodeIndex of
        None \<Rightarrow> Some (Inl TypeError)
      | Some i \<Rightarrow>
          if length (opcodes script) \<le> i then Some (Inl TypeError)
          else
            (case walk (set_entrypoint script i) i of
               Inl e \<Rightarrow> Some (Inl e)
             | Inr (Returned script1) \<Rightarrow> Some (Inr script1)
             | Inr (Broke script1 j op) \<Rightarrow>
                 if js_in op terminators then Some (Inr script1)
                 else if js_in op unconditionals then
                   reachable fuel script1 (branchIndex script1 (assembly (opcodes script1 ! j)))
                 else if js_in op conditionals then
                   (case reachable fuel script1 (Some (j + 1)) of
                      None \<Rightarrow> None
                    | Some (Inl e) \<Rightarrow> Some (Inl e)
                    | Some (Inr script2) \<Rightarrow>
                        (case branchIndex script2 (assembly (opcodes script2 ! j)) of
                           None \<Rightarrow> Some (Inr script2)
                         | Some branch \<Rightarrow>
                             if branch = 0 then Some (Inr script2)
                             else reachable fuel script2 (Some branch)))
                 else if js_in op switches then
                   (case find_ffset (hd (split_on (CHR 0x09) (assembly (opcodes script1 ! j)))) of
                      None \<Rightarrow> Some (Inl TypeError)
                    | Some d \<Rightarrow>
                        (case reachable fuel script1
                                (switch_index script1 (pc (opcodes script1 ! j)) d) of
                           None \<Rightarrow> None
                         | Some (Inl e) \<Rightarrow> Some (Inl e)
                         | Some (Inr script2) \<Rightarrow>
                             reachable_cases fuel script2 (pc (opcodes script1 ! j))
                               (tl (split_on (CHR 0x09) (assembly (opcodes script1 ! j))))))
                 else Some (Inr script1)))"
| "reachable_cases fuel script pc0 [] = Some (Inr script)"
| "reachable_cases fuel script pc0 (c # cs) =
     (case case_offset c of
        None \<Rightarrow> Some (Inl TypeError)
      | Some d \<Rightarrow>
          (case reachable fuel script (switch_index script pc0 d) of
             None \<Rightarrow> None
           | Some (Inl e) \<Rightarrow> Some (Inl e)
           | Some (Inr script') \<Rightarrow> reachable_cases fuel script' pc0 cs))"

text \<open>\<^verbatim>\<open>Script.prototype.checkReachability\<close>.\<close>

definition checkReachability :: "nat \<Rightarrow> script \<Rightarrow> (error + script) option" where
  "checkReachability fuel script = reachable fuel script (Some 0)"

subsection \<open>Lines: counts and coverage class\<close>

text \<open>A \<^verbatim>\<open>Line\<close> object. \<^verbatim>\<open>opcodes\<close> is an object used as a dictionary from the key
  \<^verbatim>\<open>script.name + ":" + opcode.pc\<close> to the instruction, enumerated in insertion order (a key
  holds a colon, so it is never an array index); the field is called \<open>line_opcodes\<close> here.
  The cache \<^verbatim>\<open>_counts\<close> is left out: within one \<^verbatim>\<open>parseData\<close> every instruction is added
  before the first call of \<^verbatim>\<open>counts()\<close>, so the cached and the recomputed value agree.\<close>

record line =
  number :: nat
  line_opcodes :: "(string \<times> opcode) list"
  startFunc :: bool
  endFunc :: bool

definition new_line :: "nat \<Rightarrow> line" where
  "new_line n = \<lparr>number = n, line_opcodes = [], startFunc = False, endFunc = False\<rparr>"

text \<open>\<^verbatim>\<open>Line.prototype.addOpcode\<close>: the first registration of a key wins.\<close>

definition addOpcode :: "line \<Rightarrow> string \<Rightarrow> opcode \<Rightarrow> line" where
  "addOpcode ln key opcode =
     (if map_of (line_opcodes ln) key \<noteq> None then ln
      else ln\<lparr>line_opcodes := line_opcodes ln @ [(key, opcode)]\<rparr>)"

text \<open>The \<^verbatim>\<open>for(var pc in this.opcodes)\<close> loop of \<^verbatim>\<open>Line.prototype.counts\<close>. The state is
  \<^verbatim>\<open>(min, max, rawcounts, lastopcode)\<close>.\<close>

fun counts_loop ::
  "opcode list \<Rightarrow> jsnum \<times> jsnum \<times> jsnum list \<times> opcode option
     \<Rightarrow> jsnum \<times> jsnum \<times> jsnum list \<times> opcode option" where
  "counts_loop [] st = st"
| "counts_loop (opcode # rest) (mn, mx, rawcounts, lastopcode) =
     (let c = count opcode
      in if op_reachable opcode then
           (if (case lastopcode of
                  None \<Rightarrow> False
                | Some l \<Rightarrow> fallsthrough l \<and>
                    (strict_eq c (count l) \<or>
                     (strict_eq c (Num 0) \<and> \<not> strict_eq (count l) (Num 0))))
            then counts_loop rest (mn, mx, rawcounts, Some opcode)
            else counts_loop rest (js_min mn c, js_max mx c, rawcounts @ [c], Some opcode))
         else counts_loop rest (mn, mx, rawcounts @ [Num (- 1)], Some opcode))"

text \<open>\<^verbatim>\<open>rawcounts.sort(function(a,b) { return a-b; })\<close>, as an insertion sort that moves an
  element past another when their difference is positive. On numbers every sorting
  algorithm gives this result; when a \<open>NaN\<close> is present the comparison function is not
  consistent and the order is left to the JavaScript engine.\<close>

fun insert_num :: "jsnum \<Rightarrow> jsnum list \<Rightarrow> jsnum list" where
  "insert_num x [] = [x]"
| "insert_num x (y # ys) = (if js_gt x y then y # insert_num x ys else x # y # ys)"

definition sort_numeric :: "jsnum list \<Rightarrow> jsnum list" where
  "sort_numeric xs = foldr insert_num xs []"

text \<open>The loop that removes duplicates: \<open>lastv\<close> is \<^verbatim>\<open>counts[j]\<close>.\<close>

fun dedup_from :: "jsnum \<Rightarrow> jsnum list \<Rightarrow> jsnum list" where
  "dedup_from lastv [] = []"
| "dedup_from lastv (x # xs) =
     (if strict_eq x lastv then dedup_from lastv xs else x # dedup_from x xs)"

text \<open>\<^verbatim>\<open>counts[0] = rawcounts[0]\<close> stores \<^verbatim>\<open>undefined\<close> when \<^verbatim>\<open>rawcounts\<close> is empty.\<close>

fun dedup :: "jsnum list \<Rightarrow> jsnum list" where
  "dedup [] = [Undefined]"
| "dedup (x # xs) = x # dedup_from x xs"

text \<open>\<^verbatim>\<open>Line.prototype.counts\<close>. The result \<open>None\<close> is \<^verbatim>\<open>undefined\<close>: the variable \<^verbatim>\<open>counts\<close> is
  assigned in the first and the last branch, and in the middle branch only under its
  inner \<^verbatim>\<open>if\<close>. The middle branch reads the first instruction of the line, which exists
  there because \<^verbatim>\<open>rawcounts\<close> has an element.\<close>

definition counts :: "line \<Rightarrow> jsnum list option" where
  "counts ln =
     (case counts_loop (map snd (line_opcodes ln)) (Infinity, Num 0, [], None) of
        (mn, mx, rawcounts, lastopcode) \<Rightarrow>
          if strict_eq mn mx \<and> js_ge mn (Num 0) then Some [mn]
          else if length rawcounts = 1 \<and> strict_eq (rawcounts ! 0) (Num (- 1)) then
            (case line_opcodes ln of
               [] \<Rightarrow> None
             | (key, first) # rest \<Rightarrow> if assembly first = ''stop'' then Some [] else None)
          else Some (dedup (sort_numeric rawcounts)))"

text \<open>\<^verbatim>\<open>Line.prototype.coverage\<close>: one of the strings \<^verbatim>\<open>"full"\<close>, \<^verbatim>\<open>"some"\<close>, \<^verbatim>\<open>"none"\<close>,
  \<^verbatim>\<open>"dead"\<close>, \<^verbatim>\<open>""\<close>, or \<^verbatim>\<open>undefined\<close> (\<open>None\<close>) when no \<^verbatim>\<open>return\<close> is reached. Reading
  \<^verbatim>\<open>counts.length\<close> raises when \<^verbatim>\<open>counts()\<close> returned \<^verbatim>\<open>undefined\<close>.\<close>

definition coverage :: "line \<Rightarrow> error + string option" where
  "coverage ln =
     (case counts ln of
        None \<Rightarrow> Inl TypeError
      | Some cs \<Rightarrow>
          Inr (if length cs = 0 then Some []
               else if js_gt (cs ! 0) (Num 0) then Some ''full''
               else if length cs = 1 then
                 (if strict_eq (cs ! 0) (Num 0) then Some ''none''
                  else if strict_eq (cs ! 0) (Num (- 1)) then Some ''dead''
                  else None)
               else if strict_eq (cs ! 0) (Num (- 1)) \<and> js_gt (cs ! 1) (Num 0)
                 then Some ''full''
               else Some ''some''))"

subsection \<open>The parser: record blocks and duplicate scripts\<close>

text \<open>A \<^verbatim>\<open>Parser\<close> object. \<^verbatim>\<open>scriptlines\<close> is \<^verbatim>\<open>null\<close> outside a record (the empty list here; it
  is only read inside a record, where it holds the start marker at least). \<^verbatim>\<open>scriptMap\<close> maps
  a signature to the script object that is also an element of \<^verbatim>\<open>scripts\<close>: the model keeps
  the position of that element. A signature contains a colon and a line feed, so it is
  never the name of an inherited property, and the lookup \<^verbatim>\<open>this.scriptMap[string]\<close> is the
  lookup in the association list.\<close>

record parser =
  inscript :: bool
  scriptlines :: "string list"
  scripts :: "script list"
  scriptMap :: "(string \<times> nat) list"

definition new_parser :: parser where
  "new_parser = \<lparr>inscript = False, scriptlines = [], scripts = [], scriptMap = []\<rparr>"

text \<open>The three first lines that make the parser skip a record.\<close>

definition skipped_header :: "string \<Rightarrow> bool" where
  "skipped_header s =
     (s = ''--- SCRIPT (null):0 ---'' \<or> s = ''--- SCRIPT :0 ---'' \<or> s = ''--- SCRIPT -e:1 ---'')"

text \<open>What \<^verbatim>\<open>processLine\<close> does with a complete record block that is not skipped: build the
  script; merge its counts into the registered script with the same signature, or else run
  the reachability analysis and register it. The analysis is run with a depth bound that
  always suffices (lemma \<open>checkReachability_enough\<close>), so the last branch is never
  taken.\<close>

definition register_script :: "parser \<Rightarrow> string list \<Rightarrow> error + parser" where
  "register_script p lines =
     (case Script lines of
        Inl e \<Rightarrow> Inl e
      | Inr script \<Rightarrow>
          (case map_of (scriptMap p) (toString script) of
             Some k \<Rightarrow>
               (case addCounts (scripts p ! k) script of
                  Inl e \<Rightarrow> Inl e
                | Inr existingScript \<Rightarrow> Inr (p\<lparr>scripts := (scripts p)[k := existingScript]\<rparr>))
           | None \<Rightarrow>
               (case checkReachability (Suc (length (opcodes script))) script of
                  Some (Inr script') \<Rightarrow>
                    Inr (p\<lparr>scripts := scripts p @ [script'],
                           scriptMap := AList.update (toString script) (length (scripts p))
                                          (scriptMap p)\<rparr>)
                | Some (Inl e) \<Rightarrow> Inl e
                | None \<Rightarrow> Inl TypeError)))"

text \<open>\<^verbatim>\<open>Parser.prototype.processLine\<close>. The boolean the source returns (was the line consumed)
  is not used by \<^verbatim>\<open>parseData\<close> and is left out.\<close>

definition processLine :: "parser \<Rightarrow> string \<Rightarrow> error + parser" where
  "processLine p dataline =
     (if inscript p then
        (if SCRIPT_END dataline then
           (if \<not> skipped_header (hd (scriptlines p @ [dataline])) then
              (case register_script p (scriptlines p @ [dataline]) of
                 Inl e \<Rightarrow> Inl e
               | Inr p' \<Rightarrow> Inr (p'\<lparr>scriptlines := [], inscript := False\<rparr>))
            else Inr (p\<lparr>scriptlines := [], inscript := False\<rparr>))
         else Inr (p\<lparr>scriptlines := scriptlines p @ [dataline]\<rparr>))
      else if SCRIPT_START dataline \<noteq> None then
        Inr (p\<lparr>inscript := True, scriptlines := [dataline]\<rparr>)
      else Inr p)"

text \<open>\<^verbatim>\<open>lines.forEach(function(line) { parser.processLine(line); })\<close>: an exception ends the
  loop.\<close>

fun processLines :: "parser \<Rightarrow> string list \<Rightarrow> error + parser" where
  "processLines p [] = Inr p"
| "processLines p (dataline # rest) =
     (case processLine p dataline of
        Inl e \<Rightarrow> Inl e
      | Inr p' \<Rightarrow> processLines p' rest)"

text \<open>The first three statements of \<^verbatim>\<open>parseData\<close>: the scripts of a trace.\<close>

definition parse_scripts :: "string \<Rightarrow> error + script list" where
  "parse_scripts rawdata =
     (case processLines new_parser (split_on (CHR 0x0A) rawdata) of
        Inl e \<Rightarrow> Inl e
      | Inr p \<Rightarrow> Inr (scripts p))"

subsection \<open>Files and their snapshots\<close>

text \<open>A \<^verbatim>\<open>File\<close> object: \<^verbatim>\<open>lines\<close> maps a line number to its \<^verbatim>\<open>Line\<close> (\<open>file_lines\<close> here, in
  insertion order; the order in which \<^verbatim>\<open>for ... in\<close> enumerates the lines does not change
  what \<^verbatim>\<open>parseData\<close> computes from them).\<close>

record source_file =
  file_name :: string
  file_lines :: "(nat \<times> line) list"

definition new_file :: "string \<Rightarrow> source_file" where
  "new_file n = \<lparr>file_name = n, file_lines = []\<rparr>"

text \<open>\<^verbatim>\<open>file.line(linenum)\<close> followed by a change \<open>g\<close> of the line it returns: the line is
  created when the file does not have it.\<close>

definition with_line :: "source_file \<Rightarrow> nat \<Rightarrow> (line \<Rightarrow> line) \<Rightarrow> source_file" where
  "with_line f linenum g =
     (case map_of (file_lines f) linenum of
        None \<Rightarrow> f\<lparr>file_lines := file_lines f @ [(linenum, g (new_line linenum))]\<rparr>
      | Some ln \<Rightarrow> f\<lparr>file_lines := AList.update linenum (g ln) (file_lines f)\<rparr>)"

text \<open>The body of \<^verbatim>\<open>scripts.forEach\<close> in \<^verbatim>\<open>parseData\<close>. \<^verbatim>\<open>files\<close> is an object literal, and
  \<^verbatim>\<open>filename in files\<close> is true for the name of an inherited property: no \<^verbatim>\<open>File\<close> is created
  then, \<^verbatim>\<open>files[filename]\<close> is the inherited value and the call of its \<^verbatim>\<open>line\<close> raises.
  Reading \<^verbatim>\<open>script.opcodes[0].srcline\<close> raises on a script without instructions.\<close>

definition add_script :: "(string \<times> source_file) list \<Rightarrow> script \<Rightarrow> error + (string \<times> source_file) list" where
  "add_script files script =
     (let fname = str_opt (filename script)
      in if fname \<in> set object_prototype_keys \<or> opcodes script = [] then Inl TypeError
         else
           (let file0 = (case map_of files fname of None \<Rightarrow> new_file fname | Some f \<Rightarrow> f);
                file1 = fold (\<lambda>opcode f.
                                with_line f (srcline opcode)
                                  (\<lambda>ln. addOpcode ln
                                     (str_opt (name script) @ '':'' @ string_of_nat (pc opcode))
                                     opcode))
                             (opcodes script) file0;
                file2 = with_line file1 (srcline (hd (opcodes script)))
                          (\<lambda>ln. ln\<lparr>startFunc := True\<rparr>);
                file3 = with_line file2 (srcline (last (opcodes script)))
                          (\<lambda>ln. ln\<lparr>endFunc := True\<rparr>)
            in Inr (AList.update fname file3 files)))"

fun add_scripts :: "(string \<times> source_file) list \<Rightarrow> script list \<Rightarrow> error + (string \<times> source_file) list" where
  "add_scripts files [] = Inr files"
| "add_scripts files (script # rest) =
     (case add_script files script of
        Inl e \<Rightarrow> Inl e
      | Inr files' \<Rightarrow> add_scripts files' rest)"

text \<open>The \<^verbatim>\<open>switch\<close> on a coverage class that \<^verbatim>\<open>File.prototype.coverage\<close> and the rescan of a
  stored snapshot share: it increments one of \<^verbatim>\<open>(covered, partial, uncovered, dead)\<close>.\<close>

definition count_class ::
  "string option \<Rightarrow> nat \<times> nat \<times> nat \<times> nat \<Rightarrow> nat \<times> nat \<times> nat \<times> nat" where
  "count_class c t =
     (case t of (covered, partial, uncovered, dead) \<Rightarrow>
        if c = Some ''full'' then (covered + 1, partial, uncovered, dead)
        else if c = Some ''some'' then (covered, partial + 1, uncovered, dead)
        else if c = Some ''none'' then (covered, partial, uncovered + 1, dead)
        else if c = Some ''dead'' then (covered, partial, uncovered, dead + 1)
        else t)"

text \<open>\<^verbatim>\<open>File.prototype.coverage\<close>.\<close>

fun File_coverage_loop ::
  "line list \<Rightarrow> nat \<times> nat \<times> nat \<times> nat \<Rightarrow> error + nat \<times> nat \<times> nat \<times> nat" where
  "File_coverage_loop [] t = Inr t"
| "File_coverage_loop (ln # rest) t =
     (case coverage ln of
        Inl e \<Rightarrow> Inl e
      | Inr c \<Rightarrow> File_coverage_loop rest (count_class c t))"

definition File_coverage :: "source_file \<Rightarrow> error + nat \<times> nat \<times> nat \<times> nat" where
  "File_coverage f = File_coverage_loop (map snd (file_lines f)) (0, 0, 0, 0)"

text \<open>The object \<^verbatim>\<open>l\<close> that \<^verbatim>\<open>parseData\<close> stores for a line. An absent \<^verbatim>\<open>startFunc\<close> or
  \<^verbatim>\<open>endFunc\<close> is \<open>False\<close>.\<close>

record linedata =
  l_coverage :: "string option"
  l_counts :: "jsnum list"
  l_startFunc :: bool
  l_endFunc :: bool

text \<open>The object \<^verbatim>\<open>filedata\<close>. \<^verbatim>\<open>lines\<close> is a JavaScript array that is assigned at the keys
  \<^verbatim>\<open>linenum - 1\<close>: a key from 0 to \<open>2^32 - 2\<close> is an element of the array, any other key (\<open>-1\<close>
  for line number 0, or a key from \<open>2^32 - 1\<close> on) is a property that the \<^verbatim>\<open>length\<close> of
  the array and the loops over its indices do not see.\<close>

record filedata =
  fd_filename :: string
  covered :: nat
  partial :: nat
  uncovered :: nat
  dead :: nat
  fd_lines :: "(int \<times> linedata) list"

definition is_array_index :: "int \<Rightarrow> bool" where
  "is_array_index k = (0 \<le> k \<and> k < 4294967295)"

text \<open>The indices that \<^verbatim>\<open>for(var i = 0; i < lines.length; i++) { if (!(i in lines)) continue; ...\<close>
  visits, in this order.\<close>

definition array_indices :: "(int \<times> 'a) list \<Rightarrow> int list" where
  "array_indices ls = sort (remdups (filter is_array_index (map fst ls)))"

text \<open>The \<^verbatim>\<open>for(var linenum in file.lines)\<close> loop of \<^verbatim>\<open>parseData\<close>. It runs after
  \<^verbatim>\<open>file.coverage()\<close> has called \<^verbatim>\<open>coverage()\<close> on every line, so \<^verbatim>\<open>counts()\<close> is an array
  here.\<close>

fun snapshot_lines :: "(nat \<times> line) list \<Rightarrow> (int \<times> linedata) list \<Rightarrow> error + (int \<times> linedata) list"
where
  "snapshot_lines [] acc = Inr acc"
| "snapshot_lines ((linenum, ln) # rest) acc =
     (case coverage ln of
        Inl e \<Rightarrow> Inl e
      | Inr c \<Rightarrow>
          snapshot_lines rest
            (AList.update (int linenum - 1)
               \<lparr>l_coverage = c,
                l_counts = (case counts ln of None \<Rightarrow> [] | Some cs \<Rightarrow> cs),
                l_startFunc = startFunc ln, l_endFunc = endFunc ln\<rparr>
               acc))"

definition snapshot :: "string \<Rightarrow> source_file \<Rightarrow> error + filedata" where
  "snapshot fname f =
     (case File_coverage f of
        Inl e \<Rightarrow> Inl e
      | Inr (c, p, u, d) \<Rightarrow>
          (case snapshot_lines (file_lines f) [] of
             Inl e \<Rightarrow> Inl e
           | Inr ls \<Rightarrow>
               Inr \<lparr>fd_filename = fname, covered = c, partial = p, uncovered = u, dead = d,
                    fd_lines = ls\<rparr>))"

subsection \<open>The engine: stored state, reconciliation and events\<close>

text \<open>The events that \<^verbatim>\<open>_trigger\<close> dispatches, with their arguments at the time of the
  call (the first argument, the engine itself, is left out). The model records the events in
  the order of the calls; what a listener does with them is outside the engine.\<close>

datatype event =
  onNewScript string filedata
| onLineUpdate string int linedata
| onScriptUpdate string filedata

text \<open>The engine: \<^verbatim>\<open>this.filenames\<close>, from file name to stored snapshot. A file name that
  reaches the lookup \<^verbatim>\<open>filename in self.filenames\<close> has passed \<open>add_script\<close>, so it is not
  the name of an inherited property.\<close>

record engine =
  filenames :: "(string \<times> filedata) list"

definition new_engine :: engine where
  "new_engine = \<lparr>filenames = []\<rparr>"

text \<open>The inner function \<^verbatim>\<open>equalArrays\<close>.\<close>

definition equalArrays :: "jsnum list \<Rightarrow> jsnum list \<Rightarrow> bool" where
  "equalArrays a b =
     (if length a \<noteq> length b then False else list_all (\<lambda>(x, y). strict_eq x y) (zip a b))"

text \<open>The first loop of the reconciliation, over the indices of the new snapshot. The
  arguments are the file name, the lines of the new snapshot, the indices still to visit,
  the lines of the stored snapshot and the events so far. When the stored snapshot has no
  line at an index the new line is adopted and \<^verbatim>\<open>onLineUpdate\<close> is triggered with \<^verbatim>\<open>i+1\<close>; the
  comparison that follows is not in an \<^verbatim>\<open>else\<close> branch and reads \<^verbatim>\<open>oldline.coverage\<close> of
  \<^verbatim>\<open>undefined\<close>, which raises.\<close>

fun reconcile_lines ::
  "string \<Rightarrow> (int \<times> linedata) list \<Rightarrow> int list \<Rightarrow> (int \<times> linedata) list \<Rightarrow> event list
     \<Rightarrow> (int \<times> linedata) list \<times> event list \<times> error option" where
  "reconcile_lines fname new [] old evs = (old, evs, None)"
| "reconcile_lines fname new (i # rest) old evs =
     (case map_of new i of
        None \<Rightarrow> reconcile_lines fname new rest old evs
      | Some newline \<Rightarrow>
          (case map_of old i of
             None \<Rightarrow>
               (AList.update i newline old, evs @ [onLineUpdate fname (i + 1) newline],
                Some TypeError)
           | Some oldline \<Rightarrow>
               if l_coverage newline \<noteq> l_coverage oldline
                  \<or> \<not> equalArrays (l_counts newline) (l_counts oldline)
               then reconcile_lines fname new rest
                      (AList.update i
                         (oldline\<lparr>l_coverage := l_coverage newline, l_counts := l_counts newline\<rparr>)
                         old)
                      (evs @ [onLineUpdate fname i
                                (oldline\<lparr>l_coverage := l_coverage newline,
                                          l_counts := l_counts newline\<rparr>)])
               else reconcile_lines fname new rest old evs))"

text \<open>The second loop: the four tallies of the lines of a stored snapshot.\<close>

definition rescan :: "(int \<times> linedata) list \<Rightarrow> nat \<times> nat \<times> nat \<times> nat" where
  "rescan ls =
     foldl (\<lambda>t i. case map_of ls i of None \<Rightarrow> t | Some l \<Rightarrow> count_class (l_coverage l) t)
           (0, 0, 0, 0) (array_indices ls)"

text \<open>The \<^verbatim>\<open>else\<close> branch of the reconciliation: the stored snapshot after the update, the
  events, and the error when one was raised.\<close>

definition reconcile :: "filedata \<Rightarrow> filedata \<Rightarrow> filedata \<times> event list \<times> error option" where
  "reconcile olddata fd =
     (case reconcile_lines (fd_filename fd) (fd_lines fd) (array_indices (fd_lines fd))
             (fd_lines olddata) [] of
        (ls, evs, Some e) \<Rightarrow> (olddata\<lparr>fd_lines := ls\<rparr>, evs, Some e)
      | (ls, evs, None) \<Rightarrow>
          (case rescan ls of (c, p, u, d) \<Rightarrow>
             if c \<noteq> covered olddata \<or> p \<noteq> partial olddata \<or> u \<noteq> uncovered olddata
                \<or> d \<noteq> dead olddata
             then (olddata\<lparr>fd_lines := ls, covered := c, partial := p, uncovered := u, dead := d\<rparr>,
                   evs @ [onScriptUpdate (fd_filename fd)
                            (olddata\<lparr>fd_lines := ls, covered := c, partial := p, uncovered := u,
                                      dead := d\<rparr>)],
                   None)
             else (olddata\<lparr>fd_lines := ls\<rparr>, evs, None)))"

text \<open>The body of \<^verbatim>\<open>filenames.forEach\<close> for the files in sorted order: the state, the events
  so far, and the error that ended the loop.\<close>

fun process_files ::
  "engine \<Rightarrow> (string \<times> source_file) list \<Rightarrow> event list \<Rightarrow> engine \<times> event list \<times> error option" where
  "process_files st [] evs = (st, evs, None)"
| "process_files st ((fname, f) # rest) evs =
     (case snapshot fname f of
        Inl e \<Rightarrow> (st, evs, Some e)
      | Inr fd \<Rightarrow>
          (case map_of (filenames st) fname of
             None \<Rightarrow>
               process_files (st\<lparr>filenames := filenames st @ [(fname, fd)]\<rparr>) rest
                 (evs @ [onNewScript fname fd])
           | Some olddata \<Rightarrow>
               (case reconcile olddata fd of
                  (olddata', evs', Some e) \<Rightarrow>
                    (st\<lparr>filenames := AList.update fname olddata' (filenames st)\<rparr>, evs @ evs',
                     Some e)
                | (olddata', evs', None) \<Rightarrow>
                    process_files (st\<lparr>filenames := AList.update fname olddata' (filenames st)\<rparr>)
                      rest (evs @ evs'))))"

text \<open>\<^verbatim>\<open>Coverage.prototype.parseData\<close>: the engine state after the call, the events it
  triggered, and the error it raised, if any. \<^verbatim>\<open>filenames.sort()\<close> orders the file names by
  their code units.\<close>

definition parseData :: "engine \<Rightarrow> string \<Rightarrow> engine \<times> event list \<times> error option" where
  "parseData st rawdata =
     (case parse_scripts rawdata of
        Inl e \<Rightarrow> (st, [], Some e)
      | Inr ss \<Rightarrow>
          (case add_scripts [] ss of
             Inl e \<Rightarrow> (st, [], Some e)
           | Inr files \<Rightarrow> process_files st (sort_key fst files) []))"

subsection \<open>Notions used to state the properties of reachability\<close>

text \<open>The script without the flags that the analysis sets: what \<^verbatim>\<open>reachable\<close> never
  changes.\<close>

definition unflag :: "opcode \<Rightarrow> opcode" where
  "unflag opcode = opcode\<lparr>op_reachable := False, fallsthrough := False, op_entrypoint := False\<rparr>"

definition code_of :: "script \<Rightarrow> script" where
  "code_of script = script\<lparr>opcodes := map unflag (opcodes script)\<rparr>"

text \<open>The positions that are marked reachable, and the number of those that are not.\<close>

definition marked :: "script \<Rightarrow> nat set" where
  "marked script = {i. i < length (opcodes script) \<and> op_reachable (opcodes script ! i)}"

definition unmarked_count :: "script \<Rightarrow> nat" where
  "unmarked_count script = length (opcodes script) - card (marked script)"

text \<open>What a run of the analysis may change: the flags only, and no mark is removed.\<close>

definition frame :: "script \<Rightarrow> script \<Rightarrow> bool" where
  "frame s s' = (code_of s' = code_of s \<and> marked s \<subseteq> marked s')"

text \<open>The instruction at a position has a linear mnemonic.\<close>

definition linear_at :: "script \<Rightarrow> nat \<Rightarrow> bool" where
  "linear_at script m =
     (case first_word (assembly (opcodes script ! m)) of None \<Rightarrow> False | Some op \<Rightarrow> linear op)"

text \<open>The successor rules of the specification (section 4.3). The category of a mnemonic is
  read from the four tables of the source; everything else is linear. The targets are the
  ones the source decodes: the absolute address of a branch, and for a switch the default
  offset and one offset per case line, each added to the address of the switch, all
  resolved through the address index.\<close>

datatype category = Terminator | Unconditional | Conditional | Switch | Linear

definition spec_category :: "string \<Rightarrow> category" where
  "spec_category op =
     (if op \<in> set terminators then Terminator
      else if op \<in> set unconditionals then Unconditional
      else if op \<in> set conditionals then Conditional
      else if op \<in> set switches then Switch
      else Linear)"

text \<open>The offsets a switch text holds: the default one, then one per case line; \<open>None\<close>
  where the text does not decode.\<close>

definition switch_offsets :: "string \<Rightarrow> string option list" where
  "switch_offsets asm =
     find_ffset (hd (split_on (CHR 0x09) asm)) # map case_offset (tl (split_on (CHR 0x09) asm))"

definition switch_targets :: "script \<Rightarrow> nat \<Rightarrow> nat option list" where
  "switch_targets script i =
     map (\<lambda>d. case d of
                None \<Rightarrow> None
              | Some d' \<Rightarrow> switch_index script (pc (opcodes script ! i)) d')
         (switch_offsets (assembly (opcodes script ! i)))"

definition spec_successors :: "script \<Rightarrow> nat \<Rightarrow> nat list" where
  "spec_successors script i =
     (case first_word (assembly (opcodes script ! i)) of
        None \<Rightarrow> []
      | Some op \<Rightarrow>
          (case spec_category op of
             Terminator \<Rightarrow> []
           | Unconditional \<Rightarrow>
               (case branchIndex script (assembly (opcodes script ! i)) of
                  None \<Rightarrow> []
                | Some t \<Rightarrow> [t])
           | Conditional \<Rightarrow>
               (i + 1) # (case branchIndex script (assembly (opcodes script ! i)) of
                            None \<Rightarrow> []
                          | Some t \<Rightarrow> [t])
           | Switch \<Rightarrow> List.map_filter id (switch_targets script i)
           | Linear \<Rightarrow> [i + 1]))"

text \<open>The control-flow graph on the positions of the script, and the positions reachable
  from position 0.\<close>

definition spec_edges :: "script \<Rightarrow> (nat \<times> nat) set" where
  "spec_edges script =
     {(i, j). i < length (opcodes script) \<and> j < length (opcodes script)
              \<and> j \<in> set (spec_successors script i)}"

definition spec_reachable :: "script \<Rightarrow> nat set" where
  "spec_reachable script = {j. (0, j) \<in> (spec_edges script)\<^sup>*}"

text \<open>The scripts on which the analysis returns and marks what the graph reaches. The
  script has at least one instruction, and at every position, reachable or not:
  \<^item> the assembly text holds a mnemonic (a run of word characters), which is not the name of
    an inherited property of the tables;
  \<^item> an unconditional branch has a text from which a target decodes, and the target is a key
    of the address index whose entry is a position of the script;
  \<^item> a conditional branch has a next instruction, and when a target decodes from its text,
    the target is a key of the address index whose entry is a position of the script;
  \<^item> in a switch the default offset decodes from the first piece of the text and a case
    offset from every further piece, and the address of the switch plus each offset is a key
    of the address index whose entry is a position of the script.\<close>

definition resolves_at :: "script \<Rightarrow> nat \<Rightarrow> bool" where
  "resolves_at script i =
     (case first_word (assembly (opcodes script ! i)) of
        None \<Rightarrow> False
      | Some op \<Rightarrow>
          op \<notin> set object_prototype_keys \<and>
          (case spec_category op of
             Terminator \<Rightarrow> True
           | Unconditional \<Rightarrow>
               (case branchIndex script (assembly (opcodes script ! i)) of
                  None \<Rightarrow> False
                | Some t \<Rightarrow> t < length (opcodes script))
           | Conditional \<Rightarrow>
               i + 1 < length (opcodes script) \<and>
               (case branch_target (assembly (opcodes script ! i)) of
                  None \<Rightarrow> True
                | Some d \<Rightarrow>
                    (case map_of (pcToOpcodeIndex script) d of
                       None \<Rightarrow> False
                     | Some t \<Rightarrow> t < length (opcodes script)))
           | Switch \<Rightarrow>
               list_all (\<lambda>t. case t of None \<Rightarrow> False | Some t' \<Rightarrow> t' < length (opcodes script))
                 (switch_targets script i)
           | Linear \<Rightarrow> True))"

definition resolves :: "script \<Rightarrow> bool" where
  "resolves script =
     (opcodes script \<noteq> [] \<and> list_all (resolves_at script) [0..<length (opcodes script)])"

text \<open>A script as the constructor builds it: no instruction is marked yet.\<close>

definition unvisited :: "script \<Rightarrow> bool" where
  "unvisited script = list_all (\<lambda>opcode. \<not> op_reachable opcode) (opcodes script)"

text \<open>Every position that is marked in \<open>M'\<close> and was not in \<open>M\<close> has all its successors
  marked in \<open>M'\<close>.\<close>

definition closed_new :: "(nat \<times> nat) set \<Rightarrow> nat set \<Rightarrow> nat set \<Rightarrow> bool" where
  "closed_new E M M' = (\<forall>a b. a \<in> M' \<and> a \<notin> M \<and> (a, b) \<in> E \<longrightarrow> b \<in> M')"

text \<open>The targets that the case lines of a switch decode to.\<close>

definition case_targets :: "script \<Rightarrow> nat \<Rightarrow> string list \<Rightarrow> nat set" where
  "case_targets script pc0 cs =
     {t. \<exists>c \<in> set cs. \<exists>d. case_offset c = Some d \<and> switch_index script pc0 d = Some t}"

subsection \<open>Example scripts\<close>

text \<open>A loop: \<^verbatim>\<open>nop; ifeq 0; goto 1; stop\<close> at the addresses 0 to 3. The conditional branch
  jumps back to the first instruction and the \<^verbatim>\<open>goto\<close> back to the branch, so the last
  instruction cannot be reached.\<close>

definition example_loop :: script where
  "example_loop =
     \<lparr>opcodes =
        [\<lparr>pc = 0, count = Num 3, srcline = 1, assembly = ''nop'',
           op_reachable = False, fallsthrough = False, op_entrypoint = False\<rparr>,
         \<lparr>pc = 1, count = Num 3, srcline = 1, assembly = ''ifeq 0 (-1)'',
           op_reachable = False, fallsthrough = False, op_entrypoint = False\<rparr>,
         \<lparr>pc = 2, count = Num 3, srcline = 2, assembly = ''goto 1 (-1)'',
           op_reachable = False, fallsthrough = False, op_entrypoint = False\<rparr>,
         \<lparr>pc = 3, count = Num 0, srcline = 3, assembly = ''stop'',
           op_reachable = False, fallsthrough = False, op_entrypoint = False\<rparr>],
      pcToOpcodeIndex = [(''0'', 0), (''1'', 1), (''2'', 2), (''3'', 3)],
      filename = Some ''a.js'', startline = Some 1, name = Some ''a.js:1'',
      entrypoint = Some 0\<rparr>"

text \<open>A conditional branch as the last instruction: \<^verbatim>\<open>goto 2; nop; ifeq 1\<close> at the addresses
  0 to 2. Both branch targets resolve through the address index.\<close>

definition example_branch_last :: script where
  "example_branch_last =
     \<lparr>opcodes =
        [\<lparr>pc = 0, count = Num 1, srcline = 1, assembly = ''goto 2 (2)'',
           op_reachable = False, fallsthrough = False, op_entrypoint = False\<rparr>,
         \<lparr>pc = 1, count = Num 1, srcline = 1, assembly = ''nop'',
           op_reachable = False, fallsthrough = False, op_entrypoint = False\<rparr>,
         \<lparr>pc = 2, count = Num 1, srcline = 1, assembly = ''ifeq 1 (-1)'',
           op_reachable = False, fallsthrough = False, op_entrypoint = False\<rparr>],
      pcToOpcodeIndex = [(''0'', 0), (''1'', 1), (''2'', 2)],
      filename = Some ''a.js'', startline = Some 1, name = Some ''a.js:1'',
      entrypoint = Some 0\<rparr>"

text \<open>A switch at address 100 with default offset 10 and one case line with offset 20,
  followed by instructions at the addresses 105, 110, 115 and 120.\<close>

definition example_switch :: script where
  "example_switch =
     \<lparr>opcodes =
        [\<lparr>pc = 100, count = Num 1, srcline = 1,
           assembly = ''tableswitch defaultOffset 10 low 0 high 0'' @ [CHR 0x09] @ ''0: 20'',
           op_reachable = False, fallsthrough = False, op_entrypoint = False\<rparr>,
         \<lparr>pc = 105, count = Num 0, srcline = 2, assembly = ''nop'',
           op_reachable = False, fallsthrough = False, op_entrypoint = False\<rparr>,
         \<lparr>pc = 110, count = Num 1, srcline = 3, assembly = ''stop'',
           op_reachable = False, fallsthrough = False, op_entrypoint = False\<rparr>,
         \<lparr>pc = 115, count = Num 0, srcline = 4, assembly = ''nop'',
           op_reachable = False, fallsthrough = False, op_entrypoint = False\<rparr>,
         \<lparr>pc = 120, count = Num 0, srcline = 5, assembly = ''stop'',
           op_reachable = False, fallsthrough = False, op_entrypoint = False\<rparr>],
      pcToOpcodeIndex = [(''100'', 0), (''105'', 1), (''110'', 2), (''115'', 3), (''120'', 4)],
      filename = Some ''a.js'', startline = Some 1, name = Some ''a.js:1'',
      entrypoint = Some 0\<rparr>"

text \<open>An unconditional branch without a target: \<^verbatim>\<open>goto; nop\<close>.\<close>

definition example_goto_bare :: script where
  "example_goto_bare =
     \<lparr>opcodes =
        [\<lparr>pc = 0, count = Num 1, srcline = 1, assembly = ''goto'',
           op_reachable = False, fallsthrough = False, op_entrypoint = False\<rparr>,
         \<lparr>pc = 1, count = Num 1, srcline = 1, assembly = ''nop'',
           op_reachable = False, fallsthrough = False, op_entrypoint = False\<rparr>],
      pcToOpcodeIndex = [(''0'', 0), (''1'', 1)],
      filename = Some ''a.js'', startline = Some 1, name = Some ''a.js:1'',
      entrypoint = Some 0\<rparr>"

text \<open>A switch whose case line does not end in digits: the default offset resolves.\<close>

definition example_switch_undecoded :: script where
  "example_switch_undecoded =
     \<lparr>opcodes =
        [\<lparr>pc = 100, count = Num 1, srcline = 1,
           assembly = ''tableswitch defaultOffset 10 low 0 high 0'' @ [CHR 0x09] @ ''0: x'',
           op_reachable = False, fallsthrough = False, op_entrypoint = False\<rparr>,
         \<lparr>pc = 110, count = Num 1, srcline = 3, assembly = ''stop'',
           op_reachable = False, fallsthrough = False, op_entrypoint = False\<rparr>],
      pcToOpcodeIndex = [(''100'', 0), (''110'', 1)],
      filename = Some ''a.js'', startline = Some 1, name = Some ''a.js:1'',
      entrypoint = Some 0\<rparr>"

text \<open>A mnemonic that is the name of an inherited property: \<^verbatim>\<open>valueOf; stop\<close>.\<close>

definition example_inherited :: script where
  "example_inherited =
     \<lparr>opcodes =
        [\<lparr>pc = 0, count = Num 1, srcline = 1, assembly = ''valueOf'',
           op_reachable = False, fallsthrough = False, op_entrypoint = False\<rparr>,
         \<lparr>pc = 1, count = Num 1, srcline = 1, assembly = ''stop'',
           op_reachable = False, fallsthrough = False, op_entrypoint = False\<rparr>],
      pcToOpcodeIndex = [(''0'', 0), (''1'', 1)],
      filename = Some ''a.js'', startline = Some 1, name = Some ''a.js:1'',
      entrypoint = Some 0\<rparr>"

subsection \<open>Example traces\<close>

text \<open>One script of \<^verbatim>\<open>a.js\<close> with a single \<^verbatim>\<open>stop\<close> instruction on source line 1, and the same
  script with the instruction on source line 2.\<close>

definition trace_line1 :: string where
  "trace_line1 =
     ''--- SCRIPT a.js:1 ---'' @ [CHR 0x0A] @ ''0:1/1/1 x 1 stop'' @ [CHR 0x0A]
       @ ''--- END SCRIPT ---''"

definition trace_line2 :: string where
  "trace_line2 =
     ''--- SCRIPT a.js:1 ---'' @ [CHR 0x0A] @ ''0:1/1/1 x 2 stop'' @ [CHR 0x0A]
       @ ''--- END SCRIPT ---''"

text \<open>The same script with a count group of two fields.\<close>

definition trace_two_fields :: string where
  "trace_two_fields =
     ''--- SCRIPT a.js:1 ---'' @ [CHR 0x0A] @ ''0:1/2 x 1 stop'' @ [CHR 0x0A]
       @ ''--- END SCRIPT ---''"

text \<open>A record block with no instruction line.\<close>

definition trace_empty_record :: string where
  "trace_empty_record = ''--- SCRIPT a.js:1 ---'' @ [CHR 0x0A] @ ''--- END SCRIPT ---''"

text \<open>A script of two instructions dumped twice, with the counts 3 and 3, then 2 and 2 (the
  three sub-counts of a line are added), and a line outside the records.\<close>

definition trace_twice :: string where
  "trace_twice =
     ''--- SCRIPT a.js:1 ---'' @ [CHR 0x0A] @ ''0:3/0/0 x 1 nop'' @ [CHR 0x0A]
       @ ''1:1/1/1 x 1 stop'' @ [CHR 0x0A] @ ''--- END SCRIPT ---'' @ [CHR 0x0A]
       @ ''some other output'' @ [CHR 0x0A]
       @ ''--- SCRIPT a.js:1 ---'' @ [CHR 0x0A] @ ''0:2/0/0 x 1 nop'' @ [CHR 0x0A]
       @ ''1:0/1/1 x 1 stop'' @ [CHR 0x0A] @ ''--- END SCRIPT ---''"

subsection \<open>Invariants of the parser\<close>

text \<open>No line feed in the name and in the assembly texts of a script: its signature then
  has one line for the name and entry index and one line for each instruction.\<close>

definition lf_free :: "script \<Rightarrow> bool" where
  "lf_free s =
     (CHR 0x0A \<notin> set (str_opt (name s))
      \<and> (\<forall>opcode \<in> set (opcodes s). CHR 0x0A \<notin> set (assembly opcode)))"

text \<open>\<^verbatim>\<open>scriptMap\<close> maps signatures to registered scripts with that signature.\<close>

definition parser_ok :: "parser \<Rightarrow> bool" where
  "parser_ok p =
     ((\<forall>sig k. map_of (scriptMap p) sig = Some k \<longrightarrow>
         k < length (scripts p) \<and> toString (scripts p ! k) = sig)
      \<and> (\<forall>s \<in> set (scripts p). lf_free s)
      \<and> (\<forall>l \<in> set (scriptlines p). CHR 0x0A \<notin> set l))"

text \<open>\<^verbatim>\<open>this.opcodes[i].count += that.opcodes[i].count\<close>.\<close>

definition add_count :: "opcode \<Rightarrow> opcode \<Rightarrow> opcode" where
  "add_count a b = a\<lparr>count := js_add (count a) (count b)\<rparr>"

text \<open>The lines of \<open>trace_twice\<close> before the second end marker, and the parser after them.\<close>

definition trace_twice_lines :: "string list" where
  "trace_twice_lines =
     [''--- SCRIPT a.js:1 ---'', ''0:3/0/0 x 1 nop'', ''1:1/1/1 x 1 stop'',
      ''--- END SCRIPT ---'', ''some other output'', ''--- SCRIPT a.js:1 ---'',
      ''0:2/0/0 x 1 nop'', ''1:0/1/1 x 1 stop'']"

definition trace_twice_parser :: parser where
  "trace_twice_parser =
     \<lparr>inscript = True,
      scriptlines = [''--- SCRIPT a.js:1 ---'', ''0:2/0/0 x 1 nop'', ''1:0/1/1 x 1 stop''],
      scripts =
        [\<lparr>opcodes =
            [\<lparr>pc = 0, count = Num 3, srcline = 1, assembly = ''nop'',
               op_reachable = True, fallsthrough = True, op_entrypoint = True\<rparr>,
             \<lparr>pc = 1, count = Num 3, srcline = 1, assembly = ''stop'',
               op_reachable = True, fallsthrough = False, op_entrypoint = False\<rparr>],
          pcToOpcodeIndex = [(''0'', 0), (''1'', 1)],
          filename = Some ''a.js'', startline = Some 1,
          name = Some ''a.js:1'', entrypoint = None\<rparr>],
      scriptMap =
        [(''a.js:1:undefined'' @ [CHR 0x0A] @ ''0:1:nop'' @ [CHR 0x0A] @ ''1:1:stop'', 0)]\<rparr>"

definition trace_twice_script :: script where
  "trace_twice_script =
     \<lparr>opcodes =
        [\<lparr>pc = 0, count = Num 2, srcline = 1, assembly = ''nop'',
           op_reachable = False, fallsthrough = False, op_entrypoint = False\<rparr>,
         \<lparr>pc = 1, count = Num 2, srcline = 1, assembly = ''stop'',
           op_reachable = False, fallsthrough = False, op_entrypoint = False\<rparr>],
      pcToOpcodeIndex = [(''0'', 0), (''1'', 1)],
      filename = Some ''a.js'', startline = Some 1,
      name = Some ''a.js:1'', entrypoint = None\<rparr>"

text \<open>The snapshot of \<^verbatim>\<open>a.js\<close> after \<open>trace_line1\<close>, and the engine that stores it.\<close>

definition filedata_line1 :: filedata where
  "filedata_line1 =
     \<lparr>fd_filename = ''a.js'', covered = 1, partial = 0, uncovered = 0, dead = 0,
      fd_lines =
        [(0, \<lparr>l_coverage = Some ''full'', l_counts = [Num 3],
               l_startFunc = True, l_endFunc = True\<rparr>)]\<rparr>"

definition engine_line1 :: engine where
  "engine_line1 = \<lparr>filenames = [(''a.js'', filedata_line1)]\<rparr>"

subsection \<open>Invariants of the files of a trace\<close>

text \<open>Every file holds each of its line numbers once.\<close>

definition files_ok :: "(string \<times> source_file) list \<Rightarrow> bool" where
  "files_ok files = (\<forall>n f. map_of files n = Some f \<longrightarrow> distinct (map fst (file_lines f)))"

text \<open>The script of \<open>trace_line1\<close> with its instruction on source line 0.\<close>

definition trace_line0 :: string where
  "trace_line0 =
     ''--- SCRIPT a.js:1 ---'' @ [CHR 0x0A] @ ''0:1/1/1 x 0 stop'' @ [CHR 0x0A]
       @ ''--- END SCRIPT ---''"

subsection \<open>Notions used to state when \<^verbatim>\<open>parseData\<close> returns\<close>

text \<open>The record blocks of a list of lines, as \<^verbatim>\<open>processLine\<close> delimits them: a block starts
  at a start marker outside a block and ends at the next end marker, both included; every
  line outside a block is skipped, and a block that no end marker closes is dropped. The
  first argument holds the lines of the block under way (none outside a block).\<close>

fun record_blocks :: "string list \<Rightarrow> string list \<Rightarrow> string list list" where
  "record_blocks cur [] = []"
| "record_blocks cur (dataline # rest) =
     (if cur \<noteq> [] then
        (if SCRIPT_END dataline then (cur @ [dataline]) # record_blocks [] rest
         else record_blocks (cur @ [dataline]) rest)
      else if SCRIPT_START dataline \<noteq> None then record_blocks [dataline] rest
      else record_blocks [] rest)"

text \<open>A record block on which the constructor and the reachability analysis return, and
  whose file name is not the name of a property that the object \<^verbatim>\<open>files\<close> inherits.\<close>

definition block_ok :: "string list \<Rightarrow> bool" where
  "block_ok b =
     (case Script b of
        Inl e \<Rightarrow> False
      | Inr script \<Rightarrow>
          checkReachability (Suc (length (opcodes script))) script \<noteq> Some (Inl TypeError)
          \<and> str_opt (filename script) \<notin> set object_prototype_keys)"

text \<open>A line that holds exactly one instruction, which is not marked reachable and is not
  \<^verbatim>\<open>stop\<close>: the lines on which \<^verbatim>\<open>counts()\<close> returns \<^verbatim>\<open>undefined\<close>.\<close>

definition dead_single :: "line \<Rightarrow> bool" where
  "dead_single ln =
     (case line_opcodes ln of
        [(key, opcode)] \<Rightarrow> \<not> op_reachable opcode \<and> assembly opcode \<noteq> ''stop''
      | _ \<Rightarrow> False)"

text \<open>No line of the files that \<^verbatim>\<open>parseData\<close> builds from a text is such a line.\<close>

definition no_dead_single :: "string \<Rightarrow> bool" where
  "no_dead_single rawdata =
     (case parse_scripts rawdata of
        Inl e \<Rightarrow> True
      | Inr ss \<Rightarrow>
          (case add_scripts [] ss of
             Inl e \<Rightarrow> True
           | Inr files \<Rightarrow>
               list_all (\<lambda>(n, f). list_all (\<lambda>(k, ln). \<not> dead_single ln) (file_lines f))
                 files))"

text \<open>The counts that the parser produces: a natural number or \<open>NaN\<close>.\<close>

definition count_ok :: "jsnum \<Rightarrow> bool" where
  "count_ok c = (case c of Num n \<Rightarrow> 0 \<le> n | NaN \<Rightarrow> True | Infinity \<Rightarrow> False | Undefined \<Rightarrow> False)"

text \<open>An instruction of a script that the parser has registered: \<^verbatim>\<open>fallsthrough\<close> is only set
  on an instruction that is marked reachable.\<close>

definition opcode_ok :: "opcode \<Rightarrow> bool" where
  "opcode_ok x = (count_ok (count x) \<and> (fallsthrough x \<longrightarrow> op_reachable x))"

text \<open>An instruction as the constructor builds it.\<close>

definition opcode_fresh :: "opcode \<Rightarrow> bool" where
  "opcode_fresh x = (count_ok (count x) \<and> \<not> op_reachable x \<and> \<not> fallsthrough x)"

definition flags_inv :: "script \<Rightarrow> bool" where
  "flags_inv s = (\<forall>x \<in> set (opcodes s). fallsthrough x \<longrightarrow> op_reachable x)"

definition script_ok :: "script \<Rightarrow> bool" where
  "script_ok s =
     (opcodes s \<noteq> [] \<and> str_opt (filename s) \<notin> set object_prototype_keys
      \<and> (\<forall>x \<in> set (opcodes s). opcode_ok x))"

definition parser_inv :: "parser \<Rightarrow> bool" where
  "parser_inv p =
     (parser_ok p \<and> (inscript p \<longleftrightarrow> scriptlines p \<noteq> [])
      \<and> (\<forall>s \<in> set (scripts p). script_ok s))"

definition line_ok :: "line \<Rightarrow> bool" where
  "line_ok ln = (\<forall>x \<in> set (map snd (line_opcodes ln)). opcode_ok x)"

definition lines_ok :: "(string \<times> source_file) list \<Rightarrow> bool" where
  "lines_ok files =
     (\<forall>n f. map_of files n = Some f \<longrightarrow> (\<forall>ln \<in> set (map snd (file_lines f)). line_ok ln))"

text \<open>No line of the files that \<^verbatim>\<open>parseData\<close> builds from a text is new to an engine that
  stores its file: the stored snapshot has an entry at every index of the \<^verbatim>\<open>lines\<close> array of
  the new snapshot.\<close>

definition no_adoption :: "engine \<Rightarrow> string \<Rightarrow> bool" where
  "no_adoption st rawdata =
     (case parse_scripts rawdata of
        Inl e \<Rightarrow> True
      | Inr ss \<Rightarrow>
          (case add_scripts [] ss of
             Inl e \<Rightarrow> True
           | Inr files \<Rightarrow>
               list_all
                 (\<lambda>(fname, f).
                    case map_of (filenames st) fname of
                      None \<Rightarrow> True
                    | Some olddata \<Rightarrow>
                        (case snapshot fname f of
                           Inl e \<Rightarrow> True
                         | Inr fd \<Rightarrow>
                             list_all (\<lambda>i. map_of (fd_lines olddata) i \<noteq> None)
                               (array_indices (fd_lines fd))))
                 files))"

subsection \<open>Traces with lines that no pattern recognises, and malformed traces\<close>

text \<open>Two scripts and a skipped record, with lines that match no pattern before, inside,
  between and after the record blocks. The first script has a loop-free conditional branch
  and an entry marker.\<close>

definition trace_noise :: string where
  "trace_noise =
     ''js> load(1)'' @ [CHR 0x0A]
       @ ''--- SCRIPT a.js:1 ---'' @ [CHR 0x0A]
       @ ''function f() {'' @ [CHR 0x0A]
       @ ''main:'' @ [CHR 0x0A]
       @ ''0:3/0/0 x 1 nop'' @ [CHR 0x0A]
       @ ''1:1/1/1 x 2 ifeq 3 (1)'' @ [CHR 0x0A]
       @ ''2:1/0/0 x 3 nop'' @ [CHR 0x0A]
       @ ''3:1/1/1 x 4 stop'' @ [CHR 0x0A]
       @ ''Source notes:'' @ [CHR 0x0A]
       @ ''--- END SCRIPT ---'' @ [CHR 0x0A]
       @ ''some other output'' @ [CHR 0x0A]
       @ ''--- SCRIPT (null):0 ---'' @ [CHR 0x0A]
       @ ''--- END SCRIPT ---'' @ [CHR 0x0A]
       @ ''--- SCRIPT b.js:7 ---'' @ [CHR 0x0A]
       @ ''0:2/0/0 x 7 stop'' @ [CHR 0x0A]
       @ ''--- END SCRIPT ---'' @ [CHR 0x0A]"

text \<open>A continuation line (it begins with a tab) before the first instruction line.\<close>

definition trace_tab_first :: string where
  "trace_tab_first =
     ''--- SCRIPT a.js:1 ---'' @ [CHR 0x0A] @ [CHR 0x09] @ ''0: 20'' @ [CHR 0x0A]
       @ ''0:1/1/1 x 1 stop'' @ [CHR 0x0A] @ ''--- END SCRIPT ---''"

text \<open>A script of a file whose name is the name of an inherited property.\<close>

definition trace_inherited_name :: string where
  "trace_inherited_name =
     ''--- SCRIPT constructor:1 ---'' @ [CHR 0x0A] @ ''0:1/1/1 x 1 stop'' @ [CHR 0x0A]
       @ ''--- END SCRIPT ---''"

text \<open>An instruction after a \<^verbatim>\<open>return\<close>, alone on its source line.\<close>

definition trace_dead_line :: string where
  "trace_dead_line =
     ''--- SCRIPT a.js:1 ---'' @ [CHR 0x0A] @ ''0:1/1/1 x 1 return'' @ [CHR 0x0A]
       @ ''1:0/0/0 x 2 nop'' @ [CHR 0x0A] @ ''--- END SCRIPT ---''"

section \<open>Properties\<close>

subsection \<open>Characters and scanning\<close>

lemma js_add_NaN_right: "js_add x NaN = NaN"
  by (cases x) simp_all

lemma is_space_not_digit: "is_space c \<Longrightarrow> \<not> is_digit c"
  by (auto simp: is_space_def is_digit_def)

lemma is_digit_not_space: "is_digit c \<Longrightarrow> \<not> is_space c"
  by (auto simp: is_space_def is_digit_def)

lemma is_digit_not_special:
  "is_digit c \<Longrightarrow> c \<noteq> CHR ''/'' \<and> c \<noteq> CHR '':'' \<and> c \<noteq> CHR ''-'' \<and> c \<noteq> CHR ''m''
     \<and> c \<noteq> CHR ''x'' \<and> c \<noteq> CHR 0x09"
  by (auto simp: is_digit_def)

lemma is_space_not_special: "is_space c \<Longrightarrow> c \<noteq> CHR ''/'' \<and> c \<noteq> CHR ''x''"
  by (auto simp: is_space_def)

lemma not_digit_literals:
  "\<not> is_digit CHR '':''" "\<not> is_digit CHR ''/''" "\<not> is_digit CHR ''x''" "\<not> is_space CHR ''x''"
  by (simp_all add: is_digit_def is_space_def)

lemma takeWhile_all_then:
  "list_all P xs \<Longrightarrow> (ys = [] \<or> \<not> P (hd ys)) \<Longrightarrow> takeWhile P (xs @ ys) = xs"
  by (induction xs) (auto simp: takeWhile_eq_Nil_iff)

lemma dropWhile_all_then:
  "list_all P xs \<Longrightarrow> (ys = [] \<or> \<not> P (hd ys)) \<Longrightarrow> dropWhile P (xs @ ys) = ys"
  by (induction xs) (auto simp: dropWhile_eq_self_iff)

lemma split_on_no_sep: "sep \<notin> set xs \<Longrightarrow> split_on sep xs = [xs]"
  by (induction xs) auto

lemma split_on_append_sep:
  "sep \<notin> set xs \<Longrightarrow> split_on sep (xs @ sep # ys) = xs # split_on sep ys"
  by (induction xs) auto

text \<open>A line that starts with a digit is neither a start marker, nor an end marker, nor
  the entry marker.\<close>

lemma digit_line_not_marker:
  assumes "s \<noteq> []" "is_digit (hd s)"
  shows "SCRIPT_START s = None" "\<not> SCRIPT_END s" "s \<noteq> ''main:''"
proof -
  obtain c cs where s: "s = c # cs" using assms(1) by (cases s) auto
  with assms(2) have c: "c \<noteq> CHR ''-''" "c \<noteq> CHR ''m''"
    using is_digit_not_special by auto
  show "SCRIPT_START s = None" using s c by (simp add: SCRIPT_START_def)
  show "\<not> SCRIPT_END s" using s c by (simp add: SCRIPT_END_def)
  show "s \<noteq> ''main:''" using s c by auto
qed

text \<open>The rule set that evaluates the scanners on a concrete line.\<close>

lemmas scan_simps =
  SCRIPT_START_def SCRIPT_END_def SCRIPT_DATA_def slash_fields.simps is_digit_def is_space_def
  is_line_terminator_def is_word_def new_opcode_def nat_of_digits_def digit_val_def nth_opt_def
  parseInt_def string_of_nat.simps digit_char_def Script_line_def Script_def new_script_def
  append_assembly_def Let_def

subsection \<open>Instruction lines with two count fields\<close>

text \<open>
  Claim C10. An instruction line whose slash-separated count group has exactly two fields
  (an address, a colon, two digit strings around one slash, then \<^verbatim>\<open>x\<close>, the source line and
  the assembly text, separated by white space) is accepted by the instruction-line pattern,
  and the count the \<^verbatim>\<open>Script\<close> constructor stores for it is \<open>NaN\<close>: the constructor always
  adds three pieces, and the third is the parse of a missing piece.
\<close>

theorem two_count_fields_give_NaN:
  assumes p: "p \<noteq> []" "list_all is_digit p"
      and a: "a \<noteq> []" "list_all is_digit a"
      and b: "b \<noteq> []" "list_all is_digit b"
      and l: "l \<noteq> []" "list_all is_digit l"
      and w1: "w1 \<noteq> []" "list_all is_space w1"
      and w2: "w2 \<noteq> []" "list_all is_space w2"
      and w3: "w3 \<noteq> []" "list_all is_space w3"
      and asm: "\<not> list_ex is_line_terminator asm" "asm = [] \<or> \<not> is_space (hd asm)"
  shows "SCRIPT_DATA (p @ '':'' @ a @ ''/'' @ b @ w1 @ ''x'' @ w2 @ l @ w3 @ asm)
           = Some (p, a @ ''/'' @ b, l, asm)
         \<and> (case Script_line script (p @ '':'' @ a @ ''/'' @ b @ w1 @ ''x'' @ w2 @ l @ w3 @ asm) of
              Inl e \<Rightarrow> False
            | Inr script' \<Rightarrow>
                map count (opcodes script') = map count (opcodes script) @ [NaN])"
proof -
  let ?t3 = "w3 @ asm"
  let ?t2 = "w2 @ l @ ?t3"
  let ?t1 = "w1 @ CHR ''x'' # ?t2"
  let ?line = "p @ '':'' @ a @ ''/'' @ b @ w1 @ ''x'' @ w2 @ l @ w3 @ asm"
  have hw1: "is_space (hd w1)" using w1 by (cases w1) auto
  have hw2: "is_space (hd w2)" using w2 by (cases w2) auto
  have hw3: "is_space (hd w3)" using w3 by (cases w3) auto
  have hl: "is_digit (hd l)" using l by (cases l) auto
  have hp: "is_digit (hd p)" using p by (cases p) auto
  have s1: "takeWhile is_digit (p @ CHR '':'' # a @ CHR ''/'' # b @ ?t1) = p"
           "dropWhile is_digit (p @ CHR '':'' # a @ CHR ''/'' # b @ ?t1)
              = CHR '':'' # a @ CHR ''/'' # b @ ?t1"
    using p by (simp_all add: takeWhile_all_then dropWhile_all_then not_digit_literals)
  have s2: "takeWhile is_digit (a @ CHR ''/'' # b @ ?t1) = a"
           "dropWhile is_digit (a @ CHR ''/'' # b @ ?t1) = CHR ''/'' # b @ ?t1"
    using a by (simp_all add: takeWhile_all_then dropWhile_all_then not_digit_literals)
  have s3: "takeWhile is_digit (b @ ?t1) = b" "dropWhile is_digit (b @ ?t1) = ?t1"
    using b w1 hw1 by (simp_all add: takeWhile_all_then dropWhile_all_then is_space_not_digit)
  have f0: "slash_fields ?t1 = []"
    using w1 hw1 by (cases w1) (auto simp: slash_fields.simps dest: is_space_not_special)
  have f1: "slash_fields (CHR ''/'' # b @ ?t1) = CHR ''/'' # b"
    using b by (subst slash_fields.simps) (simp add: s3 f0)
  have s4: "dropWhile is_space ?t1 = CHR ''x'' # ?t2"
    using w1 by (simp add: dropWhile_all_then not_digit_literals)
  have s5: "dropWhile is_space ?t2 = l @ ?t3"
    using w2 l hl by (simp add: dropWhile_all_then is_digit_not_space)
  have s6: "takeWhile is_digit (l @ ?t3) = l" "dropWhile is_digit (l @ ?t3) = ?t3"
    using l w3 hw3 by (simp_all add: takeWhile_all_then dropWhile_all_then is_space_not_digit)
  have s7: "dropWhile is_space ?t3 = asm"
    using w3 asm by (simp add: dropWhile_all_then)
  have n1: "?t1 \<noteq> CHR ''x'' # ?t2"
    using w1 hw1 by (cases w1) (auto dest: is_space_not_special)
  have n2: "l @ ?t3 \<noteq> ?t2"
    using w2 hw2 l hl by (cases w2; cases l) (auto dest: is_digit_not_space)
  have "length asm \<noteq> length ?t3" using w3 by simp
  then have n3: "asm \<noteq> ?t3" by metis
  have data: "SCRIPT_DATA ?line = Some (p, a @ ''/'' @ b, l, asm)"
    using p a b l asm n1 n2 n3
    by (simp add: SCRIPT_DATA_def s1 s2 s3 f1 s4 s5 s6 s7 Let_def)
  have na: "CHR ''/'' \<notin> set a" "CHR ''/'' \<notin> set b"
    using a b by (auto simp: list_all_iff dest: is_digit_not_special)
  have "split_on CHR ''/'' (a @ CHR ''/'' # b) = [a, b]"
    using na by (simp add: split_on_append_sep split_on_no_sep)
  then have cnt: "count (new_opcode (p, a @ ''/'' @ b, l, asm)) = NaN"
    by (simp add: new_opcode_def nth_opt_def parseInt_def js_add_NaN_right Let_def)
  have line: "?line \<noteq> []" "is_digit (hd ?line)" using p hp by (cases p; simp)+
  have "Script_line script ?line =
          Inr (script\<lparr>pcToOpcodeIndex :=
                        AList.update (string_of_nat (pc (new_opcode (p, a @ ''/'' @ b, l, asm))))
                          (length (opcodes script)) (pcToOpcodeIndex script),
                      opcodes := opcodes script @ [new_opcode (p, a @ ''/'' @ b, l, asm)]\<rparr>)"
    unfolding Script_line_def
    using digit_line_not_marker[OF line] data by (simp add: Let_def)
  with data cnt show ?thesis by simp
qed

theorem two_count_fields_give_NaN_witness:
  "SCRIPT_DATA ''0:1/2 x 1 stop'' = Some (''0'', ''1/2'', ''1'', ''stop'')
   \<and> (case Script_line new_script ''0:1/2 x 1 stop'' of
        Inl e \<Rightarrow> False
      | Inr script' \<Rightarrow> map count (opcodes script') = map count (opcodes new_script) @ [NaN])"
  using two_count_fields_give_NaN
          [of "''0''" "''1''" "''2''" "''1''" "'' ''" "'' ''" "'' ''" "''stop''" new_script]
  by (simp add: is_digit_def is_space_def is_line_terminator_def)

subsection \<open>Counts and coverage class of a line\<close>

text \<open>
  Claim C3. A line whose only instruction is unreachable and whose assembly text is not
  \<^verbatim>\<open>stop\<close> should have counts \<open>[-1]\<close> and class dead. In the code the branch for a single
  \<open>-1\<close> assigns \<^verbatim>\<open>counts\<close> only for \<^verbatim>\<open>stop\<close>: for every other text \<^verbatim>\<open>counts()\<close> returns
  \<^verbatim>\<open>undefined\<close>, and \<^verbatim>\<open>coverage()\<close> raises a \<^verbatim>\<open>TypeError\<close> on \<^verbatim>\<open>counts.length\<close>.
\<close>

theorem single_unreachable_counts_undefined:
  assumes "\<not> op_reachable opcode" "assembly opcode \<noteq> ''stop''"
  shows "counts \<lparr>number = n, line_opcodes = [(key, opcode)], startFunc = sf, endFunc = ef\<rparr> = None
       \<and> coverage \<lparr>number = n, line_opcodes = [(key, opcode)], startFunc = sf, endFunc = ef\<rparr>
           = Inl TypeError"
  using assms by (simp add: counts_def coverage_def Let_def)

theorem single_unreachable_counts_undefined_witness:
  "counts \<lparr>number = 2,
          line_opcodes = [(''a.js:1:1'', \<lparr>pc = 1, count = Num 0, srcline = 2, assembly = ''nop'',
             op_reachable = False, fallsthrough = False, op_entrypoint = False\<rparr>)],
          startFunc = False, endFunc = False\<rparr> = None
   \<and> coverage \<lparr>number = 2,
          line_opcodes = [(''a.js:1:1'', \<lparr>pc = 1, count = Num 0, srcline = 2, assembly = ''nop'',
             op_reachable = False, fallsthrough = False, op_entrypoint = False\<rparr>)],
          startFunc = False, endFunc = False\<rparr> = Inl TypeError"
  using single_unreachable_counts_undefined
          [of "\<lparr>pc = 1, count = Num 0, srcline = 2, assembly = ''nop'',
                op_reachable = False, fallsthrough = False, op_entrypoint = False\<rparr>"
              2 "''a.js:1:1''" False False]
  by simp

text \<open>The sibling path: two unreachable instructions on a line do give \<open>[-1]\<close> and dead.\<close>

lemma two_unreachable_dead:
  assumes "\<not> op_reachable u" "\<not> op_reachable v"
  shows "counts \<lparr>number = n, line_opcodes = [(k1, u), (k2, v)], startFunc = sf, endFunc = ef\<rparr>
           = Some [Num (- 1)]
       \<and> coverage \<lparr>number = n, line_opcodes = [(k1, u), (k2, v)], startFunc = sf, endFunc = ef\<rparr>
           = Inr (Some ''dead'')"
  using assms by (simp add: counts_def coverage_def sort_numeric_def Let_def)

text \<open>
  Claim C6, as stated: one unreachable instruction and one reachable instruction with
  count 4 give counts \<open>[-1, 4]\<close> and class full. The code tracks \<^verbatim>\<open>min\<close> and \<^verbatim>\<open>max\<close> over the
  reachable instructions only, so here \<^verbatim>\<open>min === max\<close> and the first branch returns \<open>[4]\<close>.
\<close>

theorem dead_and_live_counts_counterexample:
  "\<not> (counts \<lparr>number = 2,
          line_opcodes =
            [(''a.js:1:1'', \<lparr>pc = 1, count = Num 0, srcline = 2, assembly = ''nop'',
                op_reachable = False, fallsthrough = False, op_entrypoint = False\<rparr>),
             (''a.js:1:2'', \<lparr>pc = 2, count = Num 4, srcline = 2, assembly = ''nop'',
                op_reachable = True, fallsthrough = True, op_entrypoint = True\<rparr>)],
          startFunc = False, endFunc = False\<rparr> = Some [Num (- 1), Num 4])"
  by (simp add: counts_def Let_def)

text \<open>
  Claim C6, amended: for a line that holds exactly one unreachable instruction and one
  reachable instruction with count 4 that does not fall through from the unreachable one,
  in either order, \<^verbatim>\<open>counts()\<close> returns \<open>[4]\<close> and \<^verbatim>\<open>coverage()\<close> returns \<^verbatim>\<open>"full"\<close>.
\<close>

theorem dead_and_live_collapse:
  assumes "\<not> op_reachable u" "\<not> fallsthrough u" "op_reachable r" "count r = Num 4"
  shows "counts \<lparr>number = n, line_opcodes = [(k1, u), (k2, r)], startFunc = sf, endFunc = ef\<rparr>
           = Some [Num 4]
       \<and> coverage \<lparr>number = n, line_opcodes = [(k1, u), (k2, r)], startFunc = sf, endFunc = ef\<rparr>
           = Inr (Some ''full'')
       \<and> counts \<lparr>number = n, line_opcodes = [(k2, r), (k1, u)], startFunc = sf, endFunc = ef\<rparr>
           = Some [Num 4]
       \<and> coverage \<lparr>number = n, line_opcodes = [(k2, r), (k1, u)], startFunc = sf, endFunc = ef\<rparr>
           = Inr (Some ''full'')"
  using assms by (simp add: counts_def coverage_def Let_def)

theorem dead_and_live_collapse_witness:
  "counts \<lparr>number = 2,
          line_opcodes =
            [(''a.js:1:1'', \<lparr>pc = 1, count = Num 0, srcline = 2, assembly = ''nop'',
                op_reachable = False, fallsthrough = False, op_entrypoint = False\<rparr>),
             (''a.js:1:2'', \<lparr>pc = 2, count = Num 4, srcline = 2, assembly = ''nop'',
                op_reachable = True, fallsthrough = True, op_entrypoint = True\<rparr>)],
          startFunc = False, endFunc = False\<rparr> = Some [Num 4]
   \<and> coverage \<lparr>number = 2,
          line_opcodes =
            [(''a.js:1:1'', \<lparr>pc = 1, count = Num 0, srcline = 2, assembly = ''nop'',
                op_reachable = False, fallsthrough = False, op_entrypoint = False\<rparr>),
             (''a.js:1:2'', \<lparr>pc = 2, count = Num 4, srcline = 2, assembly = ''nop'',
                op_reachable = True, fallsthrough = True, op_entrypoint = True\<rparr>)],
          startFunc = False, endFunc = False\<rparr> = Inr (Some ''full'')"
  using dead_and_live_collapse
          [of "\<lparr>pc = 1, count = Num 0, srcline = 2, assembly = ''nop'',
                op_reachable = False, fallsthrough = False, op_entrypoint = False\<rparr>"
              "\<lparr>pc = 2, count = Num 4, srcline = 2, assembly = ''nop'',
                op_reachable = True, fallsthrough = True, op_entrypoint = True\<rparr>"
              2 "''a.js:1:1''" "''a.js:1:2''" False False]
  by simp

subsection \<open>Reachability: what the flag assignments change\<close>

lemma unflag_flag [simp]:
  "unflag (x\<lparr>op_reachable := b\<rparr>) = unflag x"
  "unflag (x\<lparr>fallsthrough := b\<rparr>) = unflag x"
  "unflag (x\<lparr>op_entrypoint := b\<rparr>) = unflag x"
  by (simp_all add: unflag_def)

lemma unflag_sel [simp]:
  "pc (unflag x) = pc x" "count (unflag x) = count x" "srcline (unflag x) = srcline x"
  "assembly (unflag x) = assembly x"
  by (simp_all add: unflag_def)

lemma code_of_sel [simp]:
  "opcodes (code_of s) = map unflag (opcodes s)"
  "pcToOpcodeIndex (code_of s) = pcToOpcodeIndex s"
  "name (code_of s) = name s" "filename (code_of s) = filename s"
  "entrypoint (code_of s) = entrypoint s" "startline (code_of s) = startline s"
  by (simp_all add: code_of_def)

lemma map_unflag_update:
  "unflag y = unflag (xs ! i) \<Longrightarrow> map unflag (xs[i := y]) = map unflag xs"
  by (cases "i < length xs") (auto simp: nth_list_update intro!: nth_equalityI)

lemma code_of_set [simp]:
  "code_of (set_reachable s i) = code_of s"
  "code_of (set_fallsthrough s i) = code_of s"
  "code_of (set_entrypoint s i) = code_of s"
  by (simp_all add: code_of_def set_reachable_def set_fallsthrough_def set_entrypoint_def
        map_unflag_update)

lemma length_set [simp]:
  "length (opcodes (set_reachable s i)) = length (opcodes s)"
  "length (opcodes (set_fallsthrough s i)) = length (opcodes s)"
  "length (opcodes (set_entrypoint s i)) = length (opcodes s)"
  by (simp_all add: set_reachable_def set_fallsthrough_def set_entrypoint_def)

lemma reachable_flag_set:
  "i < length (opcodes s) \<Longrightarrow>
     op_reachable (opcodes (set_reachable s i) ! k) = (k = i \<or> op_reachable (opcodes s ! k))"
  "op_reachable (opcodes (set_fallsthrough s i) ! k) = op_reachable (opcodes s ! k)"
  "op_reachable (opcodes (set_entrypoint s i) ! k) = op_reachable (opcodes s ! k)"
proof -
  show "i < length (opcodes s) \<Longrightarrow>
     op_reachable (opcodes (set_reachable s i) ! k) = (k = i \<or> op_reachable (opcodes s ! k))"
    by (simp add: set_reachable_def nth_list_update)
  show "op_reachable (opcodes (set_fallsthrough s i) ! k) = op_reachable (opcodes s ! k)"
    by (cases "i < length (opcodes s)")
       (simp_all add: set_fallsthrough_def nth_list_update list_update_beyond)
  show "op_reachable (opcodes (set_entrypoint s i) ! k) = op_reachable (opcodes s ! k)"
    by (cases "i < length (opcodes s)")
       (simp_all add: set_entrypoint_def nth_list_update list_update_beyond)
qed

lemma marked_set [simp]:
  "i < length (opcodes s) \<Longrightarrow> marked (set_reachable s i) = insert i (marked s)"
  "marked (set_fallsthrough s i) = marked s"
  "marked (set_entrypoint s i) = marked s"
  by (auto simp: marked_def reachable_flag_set)

lemma code_of_eqD:
  assumes "code_of s' = code_of s"
  shows "length (opcodes s') = length (opcodes s)"
    and "pcToOpcodeIndex s' = pcToOpcodeIndex s"
    and "i < length (opcodes s) \<Longrightarrow> assembly (opcodes s' ! i) = assembly (opcodes s ! i)"
    and "i < length (opcodes s) \<Longrightarrow> pc (opcodes s' ! i) = pc (opcodes s ! i)"
    and "i < length (opcodes s) \<Longrightarrow> count (opcodes s' ! i) = count (opcodes s ! i)"
    and "i < length (opcodes s) \<Longrightarrow> srcline (opcodes s' ! i) = srcline (opcodes s ! i)"
proof -
  from assms have "opcodes (code_of s') = opcodes (code_of s)" by simp
  then have m: "map unflag (opcodes s') = map unflag (opcodes s)" by simp
  show len: "length (opcodes s') = length (opcodes s)" using m by (rule map_eq_imp_length_eq)
  from assms have "pcToOpcodeIndex (code_of s') = pcToOpcodeIndex (code_of s)" by simp
  then show "pcToOpcodeIndex s' = pcToOpcodeIndex s" by simp
  assume i: "i < length (opcodes s)"
  have "map unflag (opcodes s') ! i = map unflag (opcodes s) ! i" using m by simp
  then have u: "unflag (opcodes s' ! i) = unflag (opcodes s ! i)" using i len by simp
  show "assembly (opcodes s' ! i) = assembly (opcodes s ! i)"
    using arg_cong[OF u, of assembly] by simp
  show "pc (opcodes s' ! i) = pc (opcodes s ! i)"
    using arg_cong[OF u, of pc] by simp
  show "count (opcodes s' ! i) = count (opcodes s ! i)"
    using arg_cong[OF u, of count] by simp
  show "srcline (opcodes s' ! i) = srcline (opcodes s ! i)"
    using arg_cong[OF u, of srcline] by simp
qed

subsection \<open>Reachability: the linear walk\<close>

lemma linear_at_code: "code_of s' = code_of s \<Longrightarrow> m < length (opcodes s) \<Longrightarrow> linear_at s' m = linear_at s m"
  using code_of_eqD(3)[of s' s m] by (simp add: linear_at_def)

lemma insert_interval:
  "i + 1 \<le> k \<Longrightarrow> insert (i::nat) M \<union> {i + 1..<k} = M \<union> {i..<k}"
  "i + 1 \<le> j \<Longrightarrow> insert (i::nat) M \<union> {i + 1..j} = M \<union> {i..j}"
  by auto

lemma walk_Returned:
  "walk s i = Inr (Returned s') \<Longrightarrow>
     code_of s' = code_of s \<and>
     (\<exists>k. i \<le> k \<and> (i \<le> length (opcodes s) \<longrightarrow> k \<le> length (opcodes s)) \<and> marked s' = marked s \<union> {i..<k}
          \<and> (length (opcodes s) \<le> k \<or> k \<in> marked s)
          \<and> (\<forall>m. i \<le> m \<and> m < k \<longrightarrow> m \<notin> marked s \<and> linear_at s m))"
proof (induction s i arbitrary: s' rule: walk.induct)
  case (1 s i)
  show ?case
  proof (cases "i < length (opcodes s)")
    case False
    with "1.prems" have "s' = s" by (simp add: walk.simps[of s i])
    with False show ?thesis by (intro conjI exI[of _ i]) auto
  next
    case lt: True
    show ?thesis
    proof (cases "op_reachable (opcodes s ! i)")
      case True
      with lt "1.prems" have "s' = s" by (simp add: walk.simps[of s i])
      with lt True show ?thesis by (intro conjI exI[of _ i]) (auto simp: marked_def)
    next
      case nr: False
      from lt nr "1.prems" obtain op where
        fw: "first_word (assembly (opcodes s ! i)) = Some op" and lin: "linear op"
        and rec: "walk (set_fallsthrough (set_reachable s i) i) (i + 1) = Inr (Returned s')"
        by (auto simp: walk.simps[of s i] split: option.splits if_splits)
      let ?s2 = "set_fallsthrough (set_reachable s i) i"
      from "1.IH"[OF lt nr fw _ rec] lin
      obtain k where c: "code_of s' = code_of ?s2" and k: "i + 1 \<le> k" "k \<le> length (opcodes s)"
        and m: "marked s' = marked ?s2 \<union> {i + 1..<k}"
        and e: "length (opcodes s) \<le> k \<or> k \<in> marked ?s2"
        and a: "\<forall>m. i + 1 \<le> m \<and> m < k \<longrightarrow> m \<notin> marked ?s2 \<and> linear_at ?s2 m"
        using lt by auto
      have c2: "code_of ?s2 = code_of s" by simp
      have m2: "marked ?s2 = insert i (marked s)" using lt by simp
      have "marked s' = marked s \<union> {i..<k}"
        unfolding m m2 using k(1) by (rule insert_interval)
      moreover have "length (opcodes s) \<le> k \<or> k \<in> marked s"
        using e k(1) unfolding m2 by auto
      moreover have "\<forall>m. i \<le> m \<and> m < k \<longrightarrow> m \<notin> marked s \<and> linear_at s m"
      proof (intro allI impI)
        fix m assume mm: "i \<le> m \<and> m < k"
        show "m \<notin> marked s \<and> linear_at s m"
        proof (cases "m = i")
          case True
          then show ?thesis using nr fw lin by (auto simp: marked_def linear_at_def)
        next
          case False
          with mm have "i + 1 \<le> m \<and> m < k" by simp
          with a have "m \<notin> marked ?s2" "linear_at ?s2 m" by auto
          moreover have "m < length (opcodes s)" using mm k by simp
          ultimately show ?thesis unfolding m2 using linear_at_code[OF c2] by auto
        qed
      qed
      ultimately show ?thesis using c c2 k by (intro conjI exI[of _ k]) auto
    qed
  qed
qed


lemma walk_Broke:
  "walk s i = Inr (Broke s' j op) \<Longrightarrow>
     code_of s' = code_of s \<and> i \<le> j \<and> j < length (opcodes s)
     \<and> marked s' = marked s \<union> {i..j} \<and> j \<notin> marked s
     \<and> first_word (assembly (opcodes s ! j)) = Some op \<and> \<not> linear op
     \<and> (\<forall>m. i \<le> m \<and> m < j \<longrightarrow> m \<notin> marked s \<and> linear_at s m)"
proof (induction s i arbitrary: s' rule: walk.induct)
  case (1 s i)
  from "1.prems" have lt: "i < length (opcodes s)" and nr: "\<not> op_reachable (opcodes s ! i)"
    by (auto simp: walk.simps[of s i] split: if_splits)
  from lt nr "1.prems" obtain op' where
    fw: "first_word (assembly (opcodes s ! i)) = Some op'"
    by (auto simp: walk.simps[of s i] split: option.splits if_splits)
  show ?case
  proof (cases "linear op'")
    case False
    with lt nr fw "1.prems" have "s' = set_reachable s i" "j = i" "op = op'"
      by (auto simp: walk.simps[of s i])
    moreover have "i \<notin> marked s" using nr by (simp add: marked_def)
    ultimately show ?thesis using lt fw False by auto
  next
    case lin: True
    let ?s2 = "set_fallsthrough (set_reachable s i) i"
    from lt nr fw lin "1.prems" have rec: "walk ?s2 (i + 1) = Inr (Broke s' j op)"
      by (auto simp: walk.simps[of s i])
    from "1.IH"[OF lt nr fw _ rec] lin
    have c: "code_of s' = code_of ?s2" and j: "i + 1 \<le> j" "j < length (opcodes s)"
        and m: "marked s' = marked ?s2 \<union> {i + 1..j}"
        and jn: "j \<notin> marked ?s2"
        and fwj: "first_word (assembly (opcodes ?s2 ! j)) = Some op" and nl: "\<not> linear op"
        and a: "\<forall>m. i + 1 \<le> m \<and> m < j \<longrightarrow> m \<notin> marked ?s2 \<and> linear_at ?s2 m"
      by auto
    have c2: "code_of ?s2 = code_of s" by simp
    have m2: "marked ?s2 = insert i (marked s)" using lt by simp
    have "marked s' = marked s \<union> {i..j}"
      unfolding m m2 using j(1) by (rule insert_interval)
    moreover have "j \<notin> marked s" using jn unfolding m2 by auto
    moreover have "first_word (assembly (opcodes s ! j)) = Some op"
      using fwj code_of_eqD(3)[OF c2 j(2)] by simp
    moreover have "\<forall>m. i \<le> m \<and> m < j \<longrightarrow> m \<notin> marked s \<and> linear_at s m"
    proof (intro allI impI)
      fix m assume mm: "i \<le> m \<and> m < j"
      show "m \<notin> marked s \<and> linear_at s m"
      proof (cases "m = i")
        case True
        then show ?thesis using nr fw lin by (auto simp: marked_def linear_at_def)
      next
        case False
        with mm have "i + 1 \<le> m \<and> m < j" by simp
        with a have "m \<notin> marked ?s2" "linear_at ?s2 m" by auto
        moreover have "m < length (opcodes s)" using mm j by simp
        ultimately show ?thesis using m2 linear_at_code[OF c2] by auto
      qed
    qed
    ultimately show ?thesis using c c2 j nl by auto
  qed
qed

subsection \<open>Reachability: the recursion only sets flags\<close>

lemma frame_refl: "frame s s" by (simp add: frame_def)

lemma frame_trans: "frame s s1 \<Longrightarrow> frame s1 s2 \<Longrightarrow> frame s s2"
  by (auto simp: frame_def)

lemma frame_entrypoint: "frame s (set_entrypoint s i)" by (simp add: frame_def)

lemma walk_frame:
  assumes "walk s i = Inr r"
  shows "case r of Returned s' \<Rightarrow> frame s s' | Broke s' j op \<Rightarrow> frame s s'"
proof (cases r)
  case (Returned s')
  with assms walk_Returned[of s i s'] show ?thesis by (auto simp: frame_def)
next
  case (Broke s' j op)
  with assms walk_Broke[of s i s' j op] show ?thesis by (auto simp: frame_def)
qed

lemma reachable_frame:
  "reachable n s idx = Some (Inr s') \<Longrightarrow> frame s s'"
  "reachable_cases n s pc0 cs = Some (Inr s') \<Longrightarrow> frame s s'"
proof (induction n s idx and n s pc0 cs arbitrary: s' and s'
       rule: reachable_reachable_cases.induct)
  case (1 script opcodeIndex)
  then show ?case by simp
next
  case (2 fuel script opcodeIndex)
  from "2.prems" obtain i where idx: "opcodeIndex = Some i" and lt: "\<not> length (opcodes script) \<le> i"
    by (auto split: option.splits if_splits)
  from "2.prems" idx lt obtain r where w: "walk (set_entrypoint script i) i = Inr r"
    by (auto split: sum.splits)
  show ?case
  proof (cases r)
    case (Returned s1)
    with "2.prems" idx lt w have "s' = s1" by simp
    with walk_frame[OF w] Returned show ?thesis
      using frame_trans[OF frame_entrypoint] by auto
  next
    case (Broke s1 j op)
    have f1: "frame script s1"
      using walk_frame[OF w] Broke frame_trans[OF frame_entrypoint] by auto
    note ih = "2.IH"[OF idx lt w Broke]
    from "2.prems" idx lt w Broke
    have body: "(if js_in op terminators then Some (Inr s1)
                 else if js_in op unconditionals then
                   reachable fuel s1 (branchIndex s1 (assembly (opcodes s1 ! j)))
                 else if js_in op conditionals then
                   (case reachable fuel s1 (Some (j + 1)) of
                      None \<Rightarrow> None
                    | Some (Inl e) \<Rightarrow> Some (Inl e)
                    | Some (Inr script2) \<Rightarrow>
                        (case branchIndex script2 (assembly (opcodes script2 ! j)) of
                           None \<Rightarrow> Some (Inr script2)
                         | Some branch \<Rightarrow>
                             if branch = 0 then Some (Inr script2)
                             else reachable fuel script2 (Some branch)))
                 else if js_in op switches then
                   (case find_ffset (hd (split_on (CHR 0x09) (assembly (opcodes s1 ! j)))) of
                      None \<Rightarrow> Some (Inl TypeError)
                    | Some d \<Rightarrow>
                        (case reachable fuel s1
                                (switch_index s1 (pc (opcodes s1 ! j)) d) of
                           None \<Rightarrow> None
                         | Some (Inl e) \<Rightarrow> Some (Inl e)
                         | Some (Inr script2) \<Rightarrow>
                             reachable_cases fuel script2 (pc (opcodes s1 ! j))
                               (tl (split_on (CHR 0x09) (assembly (opcodes s1 ! j))))))
                 else Some (Inr s1)) = Some (Inr s')"
      by simp
    show ?thesis
    proof (cases "js_in op terminators")
      case True
      with body f1 show ?thesis by simp
    next
      case nt: False
      show ?thesis
      proof (cases "js_in op unconditionals")
        case True
        with body nt have "reachable fuel s1 (branchIndex s1 (assembly (opcodes s1 ! j))) = Some (Inr s')"
          by simp
        from ih(1)[OF nt True this] f1 show ?thesis by (rule frame_trans[rotated])
      next
        case nu: False
        show ?thesis
        proof (cases "js_in op conditionals")
          case True
          from body nt nu True obtain s2 where
            r1: "reachable fuel s1 (Some (j + 1)) = Some (Inr s2)"
            by (auto split: option.splits sum.splits)
          have f2: "frame s1 s2" using ih(2)[OF nt nu True r1] .
          show ?thesis
          proof (cases "branchIndex s2 (assembly (opcodes s2 ! j))")
            case None
            with body nt nu True r1 have "s' = s2" by simp
            with f1 f2 show ?thesis by (auto intro: frame_trans)
          next
            case (Some branch)
            show ?thesis
            proof (cases "branch = 0")
              case True
              with body nt nu \<open>js_in op conditionals\<close> r1 Some have "s' = s2" by simp
              with f1 f2 show ?thesis by (auto intro: frame_trans)
            next
              case False
              with body nt nu \<open>js_in op conditionals\<close> r1 Some
              have r2: "reachable fuel s2 (Some branch) = Some (Inr s')" by simp
              have "frame s2 s'"
                using ih(3)[OF nt nu \<open>js_in op conditionals\<close> r1 _ Some False r2] by simp
              with f1 f2 show ?thesis by (auto intro: frame_trans)
            qed
          qed
        next
          case nc: False
          show ?thesis
          proof (cases "js_in op switches")
            case False
            with body nt nu nc f1 show ?thesis by simp
          next
            case True
            from body nt nu nc True obtain d s2 where
              d: "find_ffset (hd (split_on (CHR 0x09) (assembly (opcodes s1 ! j)))) = Some d"
              and r1: "reachable fuel s1 (switch_index s1 (pc (opcodes s1 ! j)) d) = Some (Inr s2)"
              and r2: "reachable_cases fuel s2 (pc (opcodes s1 ! j))
                         (tl (split_on (CHR 0x09) (assembly (opcodes s1 ! j)))) = Some (Inr s')"
              by (auto split: option.splits sum.splits)
            have f2: "frame s1 s2" using ih(4)[OF nt nu nc True d r1] .
            have f3: "frame s2 s'" using ih(5)[OF nt nu nc True d r1 _ r2] by simp
            from f1 f2 f3 show ?thesis by (auto intro: frame_trans)
          qed
        qed
      qed
    qed
  qed
next
  case (3 fuel script pc0)
  then show ?case by (simp add: frame_refl)
next
  case (4 fuel script pc0 c cs)
  from "4.prems" obtain d s2 where d: "case_offset c = Some d"
    and r1: "reachable fuel script (switch_index script pc0 d) = Some (Inr s2)"
    and r2: "reachable_cases fuel s2 pc0 cs = Some (Inr s')"
    by (auto split: option.splits sum.splits)
  have "frame script s2" using "4.IH"(1)[OF d r1] .
  moreover have "frame s2 s'" using "4.IH"(2)[OF d r1 _ r2] by simp
  ultimately show ?case by (rule frame_trans)
qed

text \<open>A relation between scripts that is reflexive and transitive and that the assignment
  of \<^verbatim>\<open>entrypoint\<close> and the linear walk respect holds between the argument and the result of
  every call.\<close>

lemma reachable_preserves:
  assumes rf: "\<And>s. R s s" and tr: "\<And>s s1 s2. R s s1 \<Longrightarrow> R s1 s2 \<Longrightarrow> R s s2"
    and en: "\<And>s i. R s (set_entrypoint s i)"
    and wk: "\<And>s i r. walk s i = Inr r \<Longrightarrow>
               (case r of Returned s' \<Rightarrow> R s s' | Broke s' j op \<Rightarrow> R s s')"
  shows "reachable n s idx = Some (Inr s') \<Longrightarrow> R s s'"
    and "reachable_cases n s pc0 cs = Some (Inr s') \<Longrightarrow> R s s'"
proof (induction n s idx and n s pc0 cs arbitrary: s' and s'
       rule: reachable_reachable_cases.induct)
  case (1 script opcodeIndex)
  then show ?case by simp
next
  case (2 fuel script opcodeIndex)
  from "2.prems" obtain i where idx: "opcodeIndex = Some i" and lt: "\<not> length (opcodes script) \<le> i"
    by (auto split: option.splits if_splits)
  from "2.prems" idx lt obtain r where w: "walk (set_entrypoint script i) i = Inr r"
    by (auto split: sum.splits)
  show ?case
  proof (cases r)
    case (Returned s1)
    with "2.prems" idx lt w have "s' = s1" by simp
    with wk[OF w] Returned show ?thesis
      using tr[OF en] by auto
  next
    case (Broke s1 j op)
    have f1: "R script s1"
      using wk[OF w] Broke tr[OF en] by auto
    note ih = "2.IH"[OF idx lt w Broke]
    from "2.prems" idx lt w Broke
    have body: "(if js_in op terminators then Some (Inr s1)
                 else if js_in op unconditionals then
                   reachable fuel s1 (branchIndex s1 (assembly (opcodes s1 ! j)))
                 else if js_in op conditionals then
                   (case reachable fuel s1 (Some (j + 1)) of
                      None \<Rightarrow> None
                    | Some (Inl e) \<Rightarrow> Some (Inl e)
                    | Some (Inr script2) \<Rightarrow>
                        (case branchIndex script2 (assembly (opcodes script2 ! j)) of
                           None \<Rightarrow> Some (Inr script2)
                         | Some branch \<Rightarrow>
                             if branch = 0 then Some (Inr script2)
                             else reachable fuel script2 (Some branch)))
                 else if js_in op switches then
                   (case find_ffset (hd (split_on (CHR 0x09) (assembly (opcodes s1 ! j)))) of
                      None \<Rightarrow> Some (Inl TypeError)
                    | Some d \<Rightarrow>
                        (case reachable fuel s1
                                (switch_index s1 (pc (opcodes s1 ! j)) d) of
                           None \<Rightarrow> None
                         | Some (Inl e) \<Rightarrow> Some (Inl e)
                         | Some (Inr script2) \<Rightarrow>
                             reachable_cases fuel script2 (pc (opcodes s1 ! j))
                               (tl (split_on (CHR 0x09) (assembly (opcodes s1 ! j))))))
                 else Some (Inr s1)) = Some (Inr s')"
      by simp
    show ?thesis
    proof (cases "js_in op terminators")
      case True
      with body f1 show ?thesis by simp
    next
      case nt: False
      show ?thesis
      proof (cases "js_in op unconditionals")
        case True
        with body nt have "reachable fuel s1 (branchIndex s1 (assembly (opcodes s1 ! j))) = Some (Inr s')"
          by simp
        from ih(1)[OF nt True this] f1 show ?thesis by (rule tr[rotated])
      next
        case nu: False
        show ?thesis
        proof (cases "js_in op conditionals")
          case True
          from body nt nu True obtain s2 where
            r1: "reachable fuel s1 (Some (j + 1)) = Some (Inr s2)"
            by (auto split: option.splits sum.splits)
          have f2: "R s1 s2" using ih(2)[OF nt nu True r1] .
          show ?thesis
          proof (cases "branchIndex s2 (assembly (opcodes s2 ! j))")
            case None
            with body nt nu True r1 have "s' = s2" by simp
            with f1 f2 show ?thesis by (auto intro: tr)
          next
            case (Some branch)
            show ?thesis
            proof (cases "branch = 0")
              case True
              with body nt nu \<open>js_in op conditionals\<close> r1 Some have "s' = s2" by simp
              with f1 f2 show ?thesis by (auto intro: tr)
            next
              case False
              with body nt nu \<open>js_in op conditionals\<close> r1 Some
              have r2: "reachable fuel s2 (Some branch) = Some (Inr s')" by simp
              have "R s2 s'"
                using ih(3)[OF nt nu \<open>js_in op conditionals\<close> r1 _ Some False r2] by simp
              with f1 f2 show ?thesis by (auto intro: tr)
            qed
          qed
        next
          case nc: False
          show ?thesis
          proof (cases "js_in op switches")
            case False
            with body nt nu nc f1 show ?thesis by simp
          next
            case True
            from body nt nu nc True obtain d s2 where
              d: "find_ffset (hd (split_on (CHR 0x09) (assembly (opcodes s1 ! j)))) = Some d"
              and r1: "reachable fuel s1 (switch_index s1 (pc (opcodes s1 ! j)) d) = Some (Inr s2)"
              and r2: "reachable_cases fuel s2 (pc (opcodes s1 ! j))
                         (tl (split_on (CHR 0x09) (assembly (opcodes s1 ! j)))) = Some (Inr s')"
              by (auto split: option.splits sum.splits)
            have f2: "R s1 s2" using ih(4)[OF nt nu nc True d r1] .
            have f3: "R s2 s'" using ih(5)[OF nt nu nc True d r1 _ r2] by simp
            from f1 f2 f3 show ?thesis by (auto intro: tr)
          qed
        qed
      qed
    qed
  qed
next
  case (3 fuel script pc0)
  then show ?case by (simp add: rf)
next
  case (4 fuel script pc0 c cs)
  from "4.prems" obtain d s2 where d: "case_offset c = Some d"
    and r1: "reachable fuel script (switch_index script pc0 d) = Some (Inr s2)"
    and r2: "reachable_cases fuel s2 pc0 cs = Some (Inr s')"
    by (auto split: option.splits sum.splits)
  have "R script s2" using "4.IH"(1)[OF d r1] .
  moreover have "R s2 s'" using "4.IH"(2)[OF d r1 _ r2] by simp
  ultimately show ?case by (rule tr)
qed


subsection \<open>Reachability: a bound on the depth that always suffices\<close>

declare reachable.simps(2) [simp del]

lemma reachable_Suc_Broke:
  assumes "i < length (opcodes s)" "walk (set_entrypoint s i) i = Inr (Broke s1 j op)"
  shows "js_in op terminators \<Longrightarrow> reachable (Suc n) s (Some i) = Some (Inr s1)"
    and "\<not> js_in op terminators \<Longrightarrow> js_in op unconditionals \<Longrightarrow>
           reachable (Suc n) s (Some i)
             = reachable n s1 (branchIndex s1 (assembly (opcodes s1 ! j)))"
    and "\<not> js_in op terminators \<Longrightarrow> \<not> js_in op unconditionals \<Longrightarrow> js_in op conditionals \<Longrightarrow>
           reachable (Suc n) s (Some i)
             = (case reachable n s1 (Some (j + 1)) of
                  None \<Rightarrow> None
                | Some (Inl e) \<Rightarrow> Some (Inl e)
                | Some (Inr script2) \<Rightarrow>
                    (case branchIndex script2 (assembly (opcodes script2 ! j)) of
                       None \<Rightarrow> Some (Inr script2)
                     | Some branch \<Rightarrow>
                         if branch = 0 then Some (Inr script2)
                         else reachable n script2 (Some branch)))"
    and "\<not> js_in op terminators \<Longrightarrow> \<not> js_in op unconditionals \<Longrightarrow> \<not> js_in op conditionals \<Longrightarrow>
           js_in op switches \<Longrightarrow>
           reachable (Suc n) s (Some i)
             = (case find_ffset (hd (split_on (CHR 0x09) (assembly (opcodes s1 ! j)))) of
                  None \<Rightarrow> Some (Inl TypeError)
                | Some d \<Rightarrow>
                    (case reachable n s1 (switch_index s1 (pc (opcodes s1 ! j)) d) of
                       None \<Rightarrow> None
                     | Some (Inl e) \<Rightarrow> Some (Inl e)
                     | Some (Inr script2) \<Rightarrow>
                         reachable_cases n script2 (pc (opcodes s1 ! j))
                           (tl (split_on (CHR 0x09) (assembly (opcodes s1 ! j))))))"
    and "\<not> js_in op terminators \<Longrightarrow> \<not> js_in op unconditionals \<Longrightarrow> \<not> js_in op conditionals \<Longrightarrow>
           \<not> js_in op switches \<Longrightarrow> reachable (Suc n) s (Some i) = Some (Inr s1)"
  using assms by (simp_all add: reachable.simps(2))

lemma finite_marked: "finite (marked s)" "card (marked s) \<le> length (opcodes s)"
proof -
  have sub: "marked s \<subseteq> {..<length (opcodes s)}" by (auto simp: marked_def)
  then show "finite (marked s)" by (rule finite_subset) simp
  from sub have "card (marked s) \<le> card {..<length (opcodes s)}" by (intro card_mono) simp_all
  then show "card (marked s) \<le> length (opcodes s)" by simp
qed

lemma frame_length: "frame s s' \<Longrightarrow> length (opcodes s') = length (opcodes s)"
  using code_of_eqD(1)[of s' s] by (simp add: frame_def)

lemma frame_unmarked: "frame s s' \<Longrightarrow> unmarked_count s' \<le> unmarked_count s"
proof -
  assume f: "frame s s'"
  then have "card (marked s) \<le> card (marked s')"
    by (intro card_mono finite_marked) (simp add: frame_def)
  with frame_length[OF f] show ?thesis by (simp add: unmarked_count_def)
qed

lemma walk_Broke_unmarked:
  assumes "walk s i = Inr (Broke s' j op)"
  shows "unmarked_count s' < unmarked_count s"
proof -
  note wb = walk_Broke[OF assms]
  from wb have c: "code_of s' = code_of s" by (rule conjunct1)
  from wb have j: "j < length (opcodes s)" by blast
  from wb have m: "marked s' = marked s \<union> {i..j}" by blast
  from wb have ij: "i \<le> j" by blast
  from wb have jn: "j \<notin> marked s" by blast
  have "j \<in> marked s'" unfolding m using ij by simp
  moreover have "marked s \<subseteq> marked s'" unfolding m by simp
  ultimately have "marked s \<subset> marked s'" using jn by blast
  then have "card (marked s) < card (marked s')" by (intro psubset_card_mono finite_marked)
  moreover have "length (opcodes s') = length (opcodes s)" using c by (rule code_of_eqD(1))
  moreover have "card (marked s') \<le> length (opcodes s')" by (rule finite_marked)
  ultimately show ?thesis by (simp add: unmarked_count_def)
qed

lemma unmarked_entrypoint [simp]: "unmarked_count (set_entrypoint s i) = unmarked_count s"
  by (simp add: unmarked_count_def)

lemma reachable_result:
  "unmarked_count s < n \<Longrightarrow> reachable n s idx \<noteq> None"
  "unmarked_count s < n \<Longrightarrow> reachable_cases n s pc0 cs \<noteq> None"
proof (induction n s idx and n s pc0 cs rule: reachable_reachable_cases.induct)
  case (1 script opcodeIndex)
  then show ?case by simp
next
  case (2 fuel script opcodeIndex)
  show ?case
  proof (cases opcodeIndex)
    case None
    then show ?thesis by (simp add: reachable.simps(2))
  next
    case (Some i)
    show ?thesis
    proof (cases "length (opcodes script) \<le> i")
      case True
      with Some show ?thesis by (simp add: reachable.simps(2))
    next
      case lt: False
      show ?thesis
      proof (cases "walk (set_entrypoint script i) i")
        case (Inl e)
        with Some lt show ?thesis by (simp add: reachable.simps(2))
      next
        case (Inr r)
        show ?thesis
        proof (cases r)
          case (Returned s1)
          with Some lt Inr show ?thesis by (simp add: reachable.simps(2))
        next
          case (Broke s1 j op)
          have w: "walk (set_entrypoint script i) i = Inr (Broke s1 j op)" using Inr Broke by simp
          have lt': "i < length (opcodes script)" using lt by simp
          note eqs = reachable_Suc_Broke[OF lt' w, of fuel]
          note ih = "2.IH"[OF Some lt Inr Broke]
          have u1: "unmarked_count s1 < fuel"
            using walk_Broke_unmarked[OF w] "2.prems" by simp
          have step: "\<And>s2 x. frame s1 s2 \<Longrightarrow> unmarked_count s2 < fuel"
            using frame_unmarked u1 by (meson le_less_trans)
          consider (t) "js_in op terminators"
            | (u) "\<not> js_in op terminators" "js_in op unconditionals"
            | (c) "\<not> js_in op terminators" "\<not> js_in op unconditionals" "js_in op conditionals"
            | (s) "\<not> js_in op terminators" "\<not> js_in op unconditionals" "\<not> js_in op conditionals"
                  "js_in op switches"
            | (l) "\<not> js_in op terminators" "\<not> js_in op unconditionals" "\<not> js_in op conditionals"
                  "\<not> js_in op switches"
            by blast
          then show ?thesis
          proof cases
            case t
            then show ?thesis using Some eqs(1) by simp
          next
            case u
            then show ?thesis using Some eqs(2) ih(1)[OF u u1] by simp
          next
            case c
            show ?thesis
            proof (cases "reachable fuel s1 (Some (j + 1))")
              case None
              with ih(2)[OF c u1] show ?thesis by simp
            next
              case (Some r1)
              show ?thesis
              proof (cases r1)
                case (Inl e)
                with Some c eqs(3) \<open>opcodeIndex = Some i\<close> show ?thesis by simp
              next
                case (Inr s2)
                have r1: "reachable fuel s1 (Some (j + 1)) = Some (Inr s2)" using Some Inr by simp
                have u2: "unmarked_count s2 < fuel" using step[OF reachable_frame(1)[OF r1]] .
                show ?thesis
                proof (cases "branchIndex s2 (assembly (opcodes s2 ! j))")
                  case None
                  with r1 c eqs(3) \<open>opcodeIndex = Some i\<close> show ?thesis by simp
                next
                  case (Some b)
                  show ?thesis
                  proof (cases "b = 0")
                    case True
                    with Some r1 c eqs(3) \<open>opcodeIndex = Some i\<close> show ?thesis by simp
                  next
                    case False
                    from ih(3)[OF c r1 _ Some False u2]
                    have "reachable fuel s2 (Some b) \<noteq> None" by simp
                    with False Some r1 c eqs(3) \<open>opcodeIndex = Some i\<close> show ?thesis by simp
                  qed
                qed
              qed
            qed
          next
            case s
            show ?thesis
            proof (cases "find_ffset (hd (split_on (CHR 0x09) (assembly (opcodes s1 ! j))))")
              case None
              with s eqs(4) \<open>opcodeIndex = Some i\<close> show ?thesis by simp
            next
              case (Some d)
              show ?thesis
              proof (cases "reachable fuel s1 (switch_index s1 (pc (opcodes s1 ! j)) d)")
                case None
                with ih(4)[OF s Some u1] show ?thesis by simp
              next
                case r: (Some r1)
                show ?thesis
                proof (cases r1)
                  case (Inl e)
                  with r Some s eqs(4) \<open>opcodeIndex = Some i\<close> show ?thesis by simp
                next
                  case (Inr s2)
                  have r1: "reachable fuel s1 (switch_index s1 (pc (opcodes s1 ! j)) d) = Some (Inr s2)"
                    using r Inr by simp
                  have u2: "unmarked_count s2 < fuel" using step[OF reachable_frame(1)[OF r1]] .
                  from ih(5)[OF s Some r1 _ u2]
                  have "reachable_cases fuel s2 (pc (opcodes s1 ! j))
                          (tl (split_on (CHR 0x09) (assembly (opcodes s1 ! j)))) \<noteq> None"
                    by simp
                  with r1 Some s eqs(4) \<open>opcodeIndex = Some i\<close> show ?thesis by simp
                qed
              qed
            qed
          next
            case l
            then show ?thesis using Some eqs(5) by simp
          qed
        qed
      qed
    qed
  qed
next
  case (3 fuel script pc0)
  then show ?case by simp
next
  case (4 fuel script pc0 c cs)
  show ?case
  proof (cases "case_offset c")
    case None
    then show ?thesis by simp
  next
    case (Some d)
    show ?thesis
    proof (cases "reachable fuel script (switch_index script pc0 d)")
      case None
      with "4.IH"(1)[OF Some "4.prems"] show ?thesis by simp
    next
      case r: (Some r1)
      show ?thesis
      proof (cases r1)
        case (Inl e)
        with r Some show ?thesis by simp
      next
        case (Inr s2)
        have r1: "reachable fuel script (switch_index script pc0 d) = Some (Inr s2)"
          using r Inr by simp
        have "unmarked_count s2 < fuel"
          using frame_unmarked[OF reachable_frame(1)[OF r1]] "4.prems" by simp
        from "4.IH"(2)[OF Some r1 _ this] have "reachable_cases fuel s2 pc0 cs \<noteq> None" by simp
        with r1 Some show ?thesis by simp
      qed
    qed
  qed
qed

subsection \<open>Reachability: a larger bound gives the same result\<close>

lemma reachable_fuel_mono:
  "reachable n s idx = Some r \<Longrightarrow> n \<le> m \<Longrightarrow> reachable m s idx = Some r"
  "reachable_cases n s pc0 cs = Some r \<Longrightarrow> n \<le> m \<Longrightarrow> reachable_cases m s pc0 cs = Some r"
proof (induction n s idx and n s pc0 cs arbitrary: r m and r m
       rule: reachable_reachable_cases.induct)
  case (1 script opcodeIndex)
  then show ?case by simp
next
  case (2 fuel script opcodeIndex)
  from "2.prems"(2) obtain m' where m: "m = Suc m'" and le: "fuel \<le> m'"
    by (cases m) auto
  show ?case
  proof (cases opcodeIndex)
    case None
    with "2.prems"(1) m show ?thesis by (simp add: reachable.simps(2))
  next
    case (Some i)
    show ?thesis
    proof (cases "length (opcodes script) \<le> i")
      case True
      with Some "2.prems"(1) m show ?thesis by (simp add: reachable.simps(2))
    next
      case lt: False
      show ?thesis
      proof (cases "walk (set_entrypoint script i) i")
        case (Inl e)
        with Some lt "2.prems"(1) m show ?thesis by (simp add: reachable.simps(2))
      next
        case (Inr w)
        show ?thesis
        proof (cases w)
          case (Returned s1)
          with Some lt Inr "2.prems"(1) m show ?thesis by (simp add: reachable.simps(2))
        next
          case (Broke s1 j op)
          have w: "walk (set_entrypoint script i) i = Inr (Broke s1 j op)" using Inr Broke by simp
          have lt': "i < length (opcodes script)" using lt by simp
          note eqs = reachable_Suc_Broke[OF lt' w, of fuel]
          note eqm = reachable_Suc_Broke[OF lt' w, of m']
          note ih = "2.IH"[OF Some lt Inr Broke]
          have p: "reachable (Suc fuel) script (Some i) = Some r" using "2.prems"(1) Some by simp
          consider (t) "js_in op terminators"
            | (u) "\<not> js_in op terminators" "js_in op unconditionals"
            | (c) "\<not> js_in op terminators" "\<not> js_in op unconditionals" "js_in op conditionals"
            | (s) "\<not> js_in op terminators" "\<not> js_in op unconditionals" "\<not> js_in op conditionals"
                  "js_in op switches"
            | (l) "\<not> js_in op terminators" "\<not> js_in op unconditionals" "\<not> js_in op conditionals"
                  "\<not> js_in op switches"
            by blast
          then have "reachable (Suc m') script (Some i) = Some r"
          proof cases
            case t
            then show ?thesis using p eqs(1) eqm(1) by simp
          next
            case u
            with p eqs(2) have "reachable fuel s1 (branchIndex s1 (assembly (opcodes s1 ! j))) = Some r"
              by simp
            from ih(1)[OF u this le] show ?thesis using u eqm(2) by simp
          next
            case c
            from p c eqs(3) obtain r1 where r1: "reachable fuel s1 (Some (j + 1)) = Some r1"
              by (cases "reachable fuel s1 (Some (j + 1))") auto
            have r1m: "reachable m' s1 (Some (j + 1)) = Some r1" using ih(2)[OF c r1 le] .
            show ?thesis
            proof (cases r1)
              case (Inl e)
              with p c eqs(3) r1 have "r = Inl e" by simp
              with Inl c eqm(3) r1m show ?thesis by simp
            next
              case (Inr s2)
              show ?thesis
              proof (cases "branchIndex s2 (assembly (opcodes s2 ! j))")
                case None
                with Inr p c eqs(3) r1 have "r = Inr s2" by simp
                with None Inr c eqm(3) r1m show ?thesis by simp
              next
                case (Some b)
                show ?thesis
                proof (cases "b = 0")
                  case True
                  with Some Inr p c eqs(3) r1 have "r = Inr s2" by simp
                  with True Some Inr c eqm(3) r1m show ?thesis by simp
                next
                  case False
                  with Some Inr p c eqs(3) r1 have "reachable fuel s2 (Some b) = Some r" by simp
                  from ih(3)[OF c _ _ Some False this le] r1 Inr
                  have "reachable m' s2 (Some b) = Some r" by simp
                  with False Some Inr c eqm(3) r1m show ?thesis by simp
                qed
              qed
            qed
          next
            case s
            show ?thesis
            proof (cases "find_ffset (hd (split_on (CHR 0x09) (assembly (opcodes s1 ! j))))")
              case None
              with p s eqs(4) have "r = Inl TypeError" by simp
              with None s eqm(4) show ?thesis by simp
            next
              case (Some d)
              from p s eqs(4) Some obtain r1 where
                r1: "reachable fuel s1 (switch_index s1 (pc (opcodes s1 ! j)) d) = Some r1"
                by (cases "reachable fuel s1 (switch_index s1 (pc (opcodes s1 ! j)) d)") auto
              have r1m: "reachable m' s1 (switch_index s1 (pc (opcodes s1 ! j)) d) = Some r1"
                using ih(4)[OF s Some r1 le] .
              show ?thesis
              proof (cases r1)
                case (Inl e)
                with p s eqs(4) Some r1 have "r = Inl e" by simp
                with Inl s eqm(4) Some r1m show ?thesis by simp
              next
                case (Inr s2)
                with p s eqs(4) Some r1
                have "reachable_cases fuel s2 (pc (opcodes s1 ! j))
                        (tl (split_on (CHR 0x09) (assembly (opcodes s1 ! j)))) = Some r" by simp
                from ih(5)[OF s Some _ _ this le] r1 Inr
                have "reachable_cases m' s2 (pc (opcodes s1 ! j))
                        (tl (split_on (CHR 0x09) (assembly (opcodes s1 ! j)))) = Some r" by simp
                with Inr s eqm(4) Some r1m show ?thesis by simp
              qed
            qed
          next
            case l
            then show ?thesis using p eqs(5) eqm(5) by simp
          qed
          with Some m show ?thesis by simp
        qed
      qed
    qed
  qed
next
  case (3 fuel script pc0)
  then show ?case by simp
next
  case (4 fuel script pc0 c cs)
  show ?case
  proof (cases "case_offset c")
    case None
    with "4.prems"(1) have "r = Inl TypeError" by simp
    with None show ?thesis by simp
  next
    case (Some d)
    from "4.prems"(1) Some obtain r1 where
      r1: "reachable fuel script (switch_index script pc0 d) = Some r1"
      by (cases "reachable fuel script (switch_index script pc0 d)") auto
    have r1m: "reachable m script (switch_index script pc0 d) = Some r1"
      using "4.IH"(1)[OF Some r1 "4.prems"(2)] .
    show ?thesis
    proof (cases r1)
      case (Inl e)
      with "4.prems"(1) Some r1 have "r = Inl e" by simp
      with Inl Some r1m show ?thesis by simp
    next
      case (Inr s2)
      with "4.prems"(1) Some r1 have "reachable_cases fuel s2 pc0 cs = Some r" by simp
      from "4.IH"(2)[OF Some _ _ this "4.prems"(2)] r1 Inr
      have "reachable_cases m s2 pc0 cs = Some r" by simp
      with Inr Some r1m show ?thesis by simp
    qed
  qed
qed

subsection \<open>Reachability: the control-flow graph of the specification\<close>

lemma closed_new_refl: "closed_new E M M"
  unfolding closed_new_def by blast

lemma closed_new_trans:
  "closed_new E M M1 \<Longrightarrow> closed_new E M1 M2 \<Longrightarrow> M1 \<subseteq> M2 \<Longrightarrow> closed_new E M M2"
  unfolding closed_new_def by blast

lemma closed_new_except:
  assumes "\<forall>a b. a \<in> M1 \<and> a \<notin> M \<and> a \<noteq> j \<and> (a, b) \<in> E \<longrightarrow> b \<in> M1"
    and "closed_new E M1 M'" "M1 \<subseteq> M'" "\<forall>b. (j, b) \<in> E \<longrightarrow> b \<in> M'"
  shows "closed_new E M M'"
  using assms unfolding closed_new_def by blast

lemma chain_rtrancl:
  "(\<forall>m. i \<le> m \<and> m < k \<longrightarrow> (m, Suc m) \<in> E) \<Longrightarrow> i \<le> x \<Longrightarrow> x \<le> k \<Longrightarrow> (i, x) \<in> E\<^sup>*"
proof (induction x)
  case 0
  then show ?case by simp
next
  case (Suc x)
  show ?case
  proof (cases "i = Suc x")
    case True
    then show ?thesis by simp
  next
    case False
    with Suc.prems have "i \<le> x" "x < k" by simp_all
    with Suc have "(i, x) \<in> E\<^sup>*" "(x, Suc x) \<in> E" by simp_all
    then show ?thesis by (rule rtrancl_into_rtrancl)
  qed
qed

lemma js_in_plain: "op \<notin> set object_prototype_keys \<Longrightarrow> js_in op ks = (op \<in> set ks)"
  by (simp add: js_in_def)

lemma linear_category:
  "op \<notin> set object_prototype_keys \<Longrightarrow> linear op = (spec_category op = Linear)"
  by (simp add: linear_def js_in_def nonlinear_def spec_category_def)

lemma category_dispatch:
  assumes "op \<notin> set object_prototype_keys"
  shows "js_in op terminators = (spec_category op = Terminator)"
    and "\<not> js_in op terminators \<Longrightarrow> js_in op unconditionals = (spec_category op = Unconditional)"
    and "\<not> js_in op terminators \<Longrightarrow> \<not> js_in op unconditionals \<Longrightarrow>
           js_in op conditionals = (spec_category op = Conditional)"
    and "\<not> js_in op terminators \<Longrightarrow> \<not> js_in op unconditionals \<Longrightarrow> \<not> js_in op conditionals \<Longrightarrow>
           js_in op switches = (spec_category op = Switch)"
  using assms by (simp_all add: js_in_def spec_category_def)

lemma resolves_atI: "resolves s \<Longrightarrow> i < length (opcodes s) \<Longrightarrow> resolves_at s i"
  by (simp add: resolves_def list_all_iff)

lemma resolves_at_word:
  assumes "resolves_at s i"
  obtains op where "first_word (assembly (opcodes s ! i)) = Some op" "op \<notin> set object_prototype_keys"
  using assms by (auto simp: resolves_at_def split: option.splits)

lemma linear_successors:
  assumes "resolves_at s m" "linear_at s m"
  shows "spec_successors s m = [m + 1]"
proof -
  from assms(1) obtain op where op: "first_word (assembly (opcodes s ! m)) = Some op"
    "op \<notin> set object_prototype_keys" by (rule resolves_at_word)
  with assms(2) have "linear op" by (simp add: linear_at_def)
  with op(2) have "spec_category op = Linear" by (simp add: linear_category)
  with op(1) show ?thesis by (simp add: spec_successors_def)
qed

lemma linear_edge:
  assumes "resolves s" "m < length (opcodes s)" "linear_at s m"
  shows "(m, b) \<in> spec_edges s \<longleftrightarrow> b = Suc m \<and> Suc m < length (opcodes s)"
  using linear_successors[OF resolves_atI[OF assms(1,2)] assms(3)] assms(2)
  by (auto simp: spec_edges_def)

subsection \<open>Reachability: the linear walk follows the edges of linear instructions\<close>

lemma branchIndex_code:
  "code_of s = code_of s0 \<Longrightarrow> j < length (opcodes s0) \<Longrightarrow>
     branchIndex s (assembly (opcodes s ! j)) = branchIndex s0 (assembly (opcodes s0 ! j))"
  using code_of_eqD(2)[of s s0] code_of_eqD(3)[of s s0 j] by (simp add: branchIndex_def split: option.splits)

lemma switch_index_code:
  "code_of s = code_of s0 \<Longrightarrow> switch_index s p d = switch_index s0 p d"
  using code_of_eqD(2)[of s s0] by (simp add: switch_index_def)

lemma walk_no_error:
  "(\<forall>m < length (opcodes s). first_word (assembly (opcodes s ! m)) \<noteq> None) \<Longrightarrow> walk s i \<noteq> Inl e"
proof (induction s i rule: walk.induct)
  case (1 s i)
  show ?case
  proof (cases "i < length (opcodes s) \<and> \<not> op_reachable (opcodes s ! i)")
    case False
    then show ?thesis by (auto simp: walk.simps[of s i])
  next
    case True
    with "1.prems" obtain op where op: "first_word (assembly (opcodes s ! i)) = Some op" by auto
    show ?thesis
    proof (cases "linear op")
      case False
      with True op show ?thesis by (simp add: walk.simps[of s i])
    next
      case lin: True
      let ?s2 = "set_fallsthrough (set_reachable s i) i"
      have c: "code_of ?s2 = code_of s" by simp
      have "\<forall>m < length (opcodes ?s2). first_word (assembly (opcodes ?s2 ! m)) \<noteq> None"
        using "1.prems" code_of_eqD(3)[OF c] by simp
      from "1.IH"[OF _ _ op _ this] True lin have "walk ?s2 (i + 1) \<noteq> Inl e" by simp
      with True op lin show ?thesis by (simp add: walk.simps[of s i])
    qed
  qed
qed

lemma resolves_words:
  assumes "resolves s0" "code_of s = code_of s0"
  shows "\<forall>m < length (opcodes s). first_word (assembly (opcodes s ! m)) \<noteq> None"
proof (intro allI impI)
  fix m assume "m < length (opcodes s)"
  then have m: "m < length (opcodes s0)" using code_of_eqD(1)[OF assms(2)] by simp
  from resolves_atI[OF assms(1) m] obtain op where
    "first_word (assembly (opcodes s0 ! m)) = Some op" by (rule resolves_at_word)
  then show "first_word (assembly (opcodes s ! m)) \<noteq> None"
    using code_of_eqD(3)[OF assms(2) m] by simp
qed

lemma walk_Broke_graph:
  assumes res: "resolves s0" and c: "code_of s = code_of s0"
    and w: "walk s i = Inr (Broke s1 j op)"
  shows "\<forall>a b. a \<in> marked s1 \<and> a \<notin> marked s \<and> a \<noteq> j \<and> (a, b) \<in> spec_edges s0 \<longrightarrow> b \<in> marked s1"
    and "\<forall>x. i \<le> x \<and> x \<le> j \<longrightarrow> (i, x) \<in> (spec_edges s0)\<^sup>*"
proof -
  note wb = walk_Broke[OF w]
  from wb have j: "j < length (opcodes s)" by blast
  from wb have m: "marked s1 = marked s \<union> {i..j}" by blast
  from wb have lin: "\<forall>m. i \<le> m \<and> m < j \<longrightarrow> m \<notin> marked s \<and> linear_at s m" by blast
  have len: "length (opcodes s) = length (opcodes s0)" using c by (rule code_of_eqD(1))
  have edge: "(a, b) \<in> spec_edges s0 \<longleftrightarrow> b = Suc a \<and> Suc a < length (opcodes s0)"
    if "i \<le> a" "a < j" for a b
  proof -
    have a: "a < length (opcodes s0)" using that j len by simp
    have "linear_at s a" using lin that by blast
    then have "linear_at s0 a" using linear_at_code[OF c a] by simp
    from linear_edge[OF res a this] show ?thesis .
  qed
  show "\<forall>a b. a \<in> marked s1 \<and> a \<notin> marked s \<and> a \<noteq> j \<and> (a, b) \<in> spec_edges s0 \<longrightarrow> b \<in> marked s1"
  proof (intro allI impI)
    fix a b assume h: "a \<in> marked s1 \<and> a \<notin> marked s \<and> a \<noteq> j \<and> (a, b) \<in> spec_edges s0"
    then have "a \<in> {i..j}" unfolding m by blast
    with h have ia: "i \<le> a" "a < j" by simp_all
    with h edge have "b = Suc a" by blast
    with ia have "b \<in> {i..j}" by simp
    then show "b \<in> marked s1" unfolding m by blast
  qed
  have "\<forall>m. i \<le> m \<and> m < j \<longrightarrow> (m, Suc m) \<in> spec_edges s0"
    using edge j len by auto
  then show "\<forall>x. i \<le> x \<and> x \<le> j \<longrightarrow> (i, x) \<in> (spec_edges s0)\<^sup>*"
    using chain_rtrancl[of i j "spec_edges s0"] by blast
qed

lemma walk_Returned_graph:
  assumes res: "resolves s0" and c: "code_of s = code_of s0"
    and w: "walk s i = Inr (Returned s1)" and i: "i < length (opcodes s0)"
  shows "closed_new (spec_edges s0) (marked s) (marked s1)"
    and "marked s1 \<subseteq> marked s \<union> (spec_edges s0)\<^sup>* `` {i}"
    and "i \<in> marked s1"
proof -
  have len: "length (opcodes s) = length (opcodes s0)" using c by (rule code_of_eqD(1))
  from walk_Returned[OF w] obtain k where k1: "i \<le> k"
    and k2: "i \<le> length (opcodes s) \<longrightarrow> k \<le> length (opcodes s)"
    and m: "marked s1 = marked s \<union> {i..<k}"
    and e0: "length (opcodes s) \<le> k \<or> k \<in> marked s"
    and lin: "\<forall>m. i \<le> m \<and> m < k \<longrightarrow> m \<notin> marked s \<and> linear_at s m"
    by blast
  have k: "i \<le> k" "k \<le> length (opcodes s0)" using k1 k2 i len by simp_all
  have e: "length (opcodes s0) \<le> k \<or> k \<in> marked s" using e0 len by simp
  have edge: "(a, b) \<in> spec_edges s0 \<longleftrightarrow> b = Suc a \<and> Suc a < length (opcodes s0)"
    if "i \<le> a" "a < k" for a b
  proof -
    have a: "a < length (opcodes s0)" using that k by simp
    have "linear_at s a" using lin that by blast
    then have "linear_at s0 a" using linear_at_code[OF c a] by simp
    from linear_edge[OF res a this] show ?thesis .
  qed
  show "closed_new (spec_edges s0) (marked s) (marked s1)"
    unfolding closed_new_def
  proof (intro allI impI)
    fix a b assume h: "a \<in> marked s1 \<and> a \<notin> marked s \<and> (a, b) \<in> spec_edges s0"
    then have "a \<in> {i..<k}" unfolding m by blast
    then have ia: "i \<le> a" "a < k" by simp_all
    with h edge have b: "b = Suc a" "Suc a < length (opcodes s0)" by blast+
    show "b \<in> marked s1"
    proof (cases "Suc a < k")
      case True
      with ia b have "b \<in> {i..<k}" by simp
      then show ?thesis unfolding m by blast
    next
      case False
      with ia have "Suc a = k" by simp
      with b e have "b \<in> marked s" by simp
      then show ?thesis unfolding m by blast
    qed
  qed
  show "marked s1 \<subseteq> marked s \<union> (spec_edges s0)\<^sup>* `` {i}"
  proof
    fix x assume "x \<in> marked s1"
    then consider "x \<in> marked s" | "i \<le> x" "x < k" unfolding m by auto
    then show "x \<in> marked s \<union> (spec_edges s0)\<^sup>* `` {i}"
    proof cases
      case 1
      then show ?thesis by simp
    next
      case 2
      have "\<forall>m. i \<le> m \<and> m < x \<longrightarrow> (m, Suc m) \<in> spec_edges s0"
        using edge 2 k by auto
      from chain_rtrancl[OF this 2(1)] show ?thesis by simp
    qed
  qed
  show "i \<in> marked s1"
  proof (cases "i < k")
    case True
    then show ?thesis unfolding m by simp
  next
    case False
    with k have "k = i" by simp
    with e i show ?thesis unfolding m by simp
  qed
qed

subsection \<open>Reachability: the successors of a well-formed instruction\<close>

lemma succ_terminator:
  assumes "first_word (assembly (opcodes s ! j)) = Some op" "spec_category op = Terminator"
  shows "spec_successors s j = []"
  using assms by (simp add: spec_successors_def)

lemma succ_unconditional:
  assumes "resolves_at s j" "first_word (assembly (opcodes s ! j)) = Some op"
    "spec_category op = Unconditional"
  obtains t where "branchIndex s (assembly (opcodes s ! j)) = Some t" "t < length (opcodes s)"
    "spec_successors s j = [t]"
  using assms by (auto simp: resolves_at_def spec_successors_def split: option.splits)

lemma succ_conditional:
  assumes "resolves_at s j" "first_word (assembly (opcodes s ! j)) = Some op"
    "spec_category op = Conditional"
  shows "j + 1 < length (opcodes s)"
    and "branchIndex s (assembly (opcodes s ! j)) = None \<Longrightarrow> spec_successors s j = [j + 1]"
    and "branchIndex s (assembly (opcodes s ! j)) = Some t \<Longrightarrow>
           t < length (opcodes s) \<and> spec_successors s j = [j + 1, t]"
  using assms
  by (auto simp: resolves_at_def spec_successors_def branchIndex_def split: option.splits)

lemma map_filter_id_set: "set (List.map_filter id xs) = {t. Some t \<in> set xs}"
  by (induction xs) (auto simp: List.map_filter_simps split: option.splits)

lemma case_targets_image:
  "{t. Some t \<in> (\<lambda>c. case case_offset c of None \<Rightarrow> None | Some d \<Rightarrow> switch_index s p d) ` set cs}
     = case_targets s p cs"
proof (intro set_eqI iffI)
  fix t assume "t \<in> {t. Some t \<in> (\<lambda>c. case case_offset c of None \<Rightarrow> None
                                     | Some d \<Rightarrow> switch_index s p d) ` set cs}"
  then obtain c where c: "c \<in> set cs"
    and e: "Some t = (case case_offset c of None \<Rightarrow> None | Some d \<Rightarrow> switch_index s p d)"
    by blast
  from e obtain d where "case_offset c = Some d" "switch_index s p d = Some t"
    by (cases "case_offset c") simp_all
  with c show "t \<in> case_targets s p cs" unfolding case_targets_def by blast
next
  fix t assume "t \<in> case_targets s p cs"
  then obtain c d where c: "c \<in> set cs" "case_offset c = Some d" "switch_index s p d = Some t"
    unfolding case_targets_def by blast
  then have "Some t = (case case_offset c of None \<Rightarrow> None | Some d \<Rightarrow> switch_index s p d)"
    by simp
  with c(1) show "t \<in> {t. Some t \<in> (\<lambda>c. case case_offset c of None \<Rightarrow> None
                                     | Some d \<Rightarrow> switch_index s p d) ` set cs}"
    by blast
qed

lemma succ_switch:
  assumes r: "resolves_at s j" and w: "first_word (assembly (opcodes s ! j)) = Some op"
    and c: "spec_category op = Switch"
  obtains d0 t0 where
    "find_ffset (hd (split_on (CHR 0x09) (assembly (opcodes s ! j)))) = Some d0"
    "switch_index s (pc (opcodes s ! j)) d0 = Some t0" "t0 < length (opcodes s)"
    "\<forall>c \<in> set (tl (split_on (CHR 0x09) (assembly (opcodes s ! j)))).
        \<exists>d t. case_offset c = Some d \<and> switch_index s (pc (opcodes s ! j)) d = Some t
              \<and> t < length (opcodes s)"
    "set (spec_successors s j)
       = insert t0 (case_targets s (pc (opcodes s ! j))
                      (tl (split_on (CHR 0x09) (assembly (opcodes s ! j)))))"
proof -
  let ?asm = "assembly (opcodes s ! j)"
  let ?cs = "tl (split_on (CHR 0x09) ?asm)"
  let ?p = "pc (opcodes s ! j)"
  let ?f = "\<lambda>d. case d of None \<Rightarrow> None | Some d' \<Rightarrow> switch_index s ?p d'"
  let ?ok = "\<lambda>t. case t of None \<Rightarrow> False | Some t' \<Rightarrow> t' < length (opcodes s)"
  from r w c have all: "list_all ?ok (switch_targets s j)"
    by (simp add: resolves_at_def)
  have st: "switch_targets s j
              = ?f (find_ffset (hd (split_on (CHR 0x09) ?asm))) # map (\<lambda>c. ?f (case_offset c)) ?cs"
    by (simp add: switch_targets_def switch_offsets_def comp_def)
  from all st have h0: "?ok (?f (find_ffset (hd (split_on (CHR 0x09) ?asm))))"
    and hc: "\<forall>c \<in> set ?cs. ?ok (?f (case_offset c))"
    by (simp_all add: list_all_iff)
  have pt: "\<exists>d t. x = Some d \<and> switch_index s ?p d = Some t \<and> t < length (opcodes s)"
    if "?ok (?f x)" for x
  proof (cases x)
    case None
    with that show ?thesis by simp
  next
    case (Some d)
    with that show ?thesis by (cases "switch_index s ?p d") simp_all
  qed
  from pt[OF h0] obtain d0 t0 where d0: "find_ffset (hd (split_on (CHR 0x09) ?asm)) = Some d0"
    and t0: "switch_index s ?p d0 = Some t0" "t0 < length (opcodes s)"
    by blast
  have cs: "\<forall>c \<in> set ?cs. \<exists>d t. case_offset c = Some d \<and> switch_index s ?p d = Some t
              \<and> t < length (opcodes s)"
    using hc pt by blast
  have "set (spec_successors s j) = {t. Some t \<in> set (switch_targets s j)}"
    using w c by (simp add: spec_successors_def map_filter_id_set)
  also have "\<dots> = insert t0 {t. Some t \<in> (\<lambda>c. ?f (case_offset c)) ` set ?cs}"
    unfolding st using d0 t0(1) by auto
  also have "\<dots> = insert t0 (case_targets s ?p ?cs)"
    by (simp only: case_targets_image)
  finally show thesis using that[OF d0 t0 cs] by blast
qed

lemma Image_step: "(i, j) \<in> E\<^sup>* \<Longrightarrow> (j, t) \<in> E \<Longrightarrow> E\<^sup>* `` {t} \<subseteq> E\<^sup>* `` {i}"
proof
  fix x assume a: "(i, j) \<in> E\<^sup>*" "(j, t) \<in> E" "x \<in> E\<^sup>* `` {t}"
  then have "(t, x) \<in> E\<^sup>*" by simp
  with a(1,2) have "(i, x) \<in> E\<^sup>*" by (meson rtrancl.rtrancl_into_rtrancl rtrancl_trans)
  then show "x \<in> E\<^sup>* `` {i}" by simp
qed

lemma Image_steps:
  "(i, j) \<in> E\<^sup>* \<Longrightarrow> \<forall>t \<in> T. (j, t) \<in> E \<Longrightarrow> E\<^sup>* `` T \<subseteq> E\<^sup>* `` {i}"
  using Image_step[of i j E] by blast

lemma case_targets_Cons:
  "case_offset c = Some d \<Longrightarrow> switch_index s p d = Some t \<Longrightarrow>
     case_targets s p (c # cs) = insert t (case_targets s p cs)"
  unfolding case_targets_def by auto

lemma nonlinear_category:
  assumes "op \<notin> set object_prototype_keys" "\<not> linear op"
  shows "spec_category op \<noteq> Linear"
  using assms by (simp add: linear_category)

lemma spec_edgeI:
  "j < length (opcodes s) \<Longrightarrow> t < length (opcodes s) \<Longrightarrow> t \<in> set (spec_successors s j)
     \<Longrightarrow> (j, t) \<in> spec_edges s"
  by (simp add: spec_edges_def)

lemma spec_edgeD: "(j, t) \<in> spec_edges s \<Longrightarrow> t \<in> set (spec_successors s j)"
  by (simp add: spec_edges_def)

text \<open>The state after the walk has stopped at a non-linear instruction \<open>j\<close>, and the
  recursive calls for the successors of \<open>j\<close> have returned.\<close>

lemma after_successors:
  assumes G1: "\<forall>a b. a \<in> M1 \<and> a \<notin> M \<and> a \<noteq> j \<and> (a, b) \<in> E \<longrightarrow> b \<in> M1"
    and G2: "\<forall>x. i \<le> x \<and> x \<le> j \<longrightarrow> (i, x) \<in> E\<^sup>*"
    and m: "M1 = M \<union> {i..j}" and ij: "i \<le> j"
    and cl: "closed_new E M1 M'" and sub: "M1 \<subseteq> M'"
    and succ: "\<forall>b. (j, b) \<in> E \<longrightarrow> b \<in> M'"
    and snd: "M' \<subseteq> M1 \<union> E\<^sup>* `` T" and T: "\<forall>t \<in> T. (j, t) \<in> E"
  shows "i \<in> M' \<and> closed_new E M M' \<and> M' \<subseteq> M \<union> E\<^sup>* `` {i}"
proof (intro conjI)
  show "i \<in> M'" using m ij sub by auto
  show "closed_new E M M'" using G1 cl sub succ by (rule closed_new_except)
  have ij': "(i, j) \<in> E\<^sup>*" using G2 ij by simp
  have "E\<^sup>* `` T \<subseteq> E\<^sup>* `` {i}" using ij' T by (rule Image_steps)
  moreover have "{i..j} \<subseteq> E\<^sup>* `` {i}" using G2 by auto
  ultimately show "M' \<subseteq> M \<union> E\<^sup>* `` {i}" using snd m by blast
qed

subsection \<open>Reachability: what a call marks\<close>

lemma reachable_marks:
  "reachable n s idx = Some r \<Longrightarrow> resolves s0 \<Longrightarrow> code_of s = code_of s0 \<Longrightarrow> idx = Some i \<Longrightarrow>
     i < length (opcodes s0) \<Longrightarrow> i = 0 \<or> 0 \<in> marked s \<Longrightarrow>
     \<exists>s'. r = Inr s' \<and> i \<in> marked s' \<and> closed_new (spec_edges s0) (marked s) (marked s')
          \<and> marked s' \<subseteq> marked s \<union> (spec_edges s0)\<^sup>* `` {i}"
  "reachable_cases n s pc0 cs = Some r \<Longrightarrow> resolves s0 \<Longrightarrow> code_of s = code_of s0 \<Longrightarrow>
     0 \<in> marked s \<Longrightarrow>
     \<forall>c \<in> set cs. \<exists>d t. case_offset c = Some d \<and> switch_index s0 pc0 d = Some t
                             \<and> t < length (opcodes s0) \<Longrightarrow>
     \<exists>s'. r = Inr s' \<and> case_targets s0 pc0 cs \<subseteq> marked s'
          \<and> closed_new (spec_edges s0) (marked s) (marked s')
          \<and> marked s' \<subseteq> marked s \<union> (spec_edges s0)\<^sup>* `` (case_targets s0 pc0 cs)"
proof (induction n s idx and n s pc0 cs arbitrary: r i and r
       rule: reachable_reachable_cases.induct)
  case (1 script opcodeIndex)
  then show ?case by simp
next
  case (2 fuel script opcodeIndex)
  let ?E = "spec_edges s0"
  let ?se = "set_entrypoint script i"
  note res = "2.prems"(2) and c = "2.prems"(3) and idx = "2.prems"(4) and i = "2.prems"(5)
    and z = "2.prems"(6)
  have len: "length (opcodes script) = length (opcodes s0)" using c by (rule code_of_eqD(1))
  have lt: "\<not> length (opcodes script) \<le> i" using i len by simp
  have lt': "i < length (opcodes script)" using i len by simp
  have ce: "code_of ?se = code_of s0" using c by simp
  have p: "reachable (Suc fuel) script (Some i) = Some r" using "2.prems"(1) idx by simp
  obtain wr where w: "walk ?se i = Inr wr"
    using walk_no_error[OF resolves_words[OF res ce], of i] by (cases "walk ?se i") auto
  show ?case
  proof (cases wr)
    case (Returned s1)
    with p lt w have r: "r = Inr s1" by (simp add: reachable.simps(2))
    have w1: "walk ?se i = Inr (Returned s1)" using w Returned by simp
    from walk_Returned_graph[OF res ce w1 i] r show ?thesis by simp
  next
    case (Broke s1 j op)
    have w1: "walk ?se i = Inr (Broke s1 j op)" using w Broke by simp
    note eqs = reachable_Suc_Broke[OF lt' w1, of fuel]
    note ih = "2.IH"[OF idx lt w Broke]
    note wb = walk_Broke[OF w1]
    from wb have c1e: "code_of s1 = code_of ?se" by (rule conjunct1)
    have c1: "code_of s1 = code_of s0" using c1e ce by simp
    from wb have ij: "i \<le> j" by blast
    from wb have j: "j < length (opcodes s0)" using len by simp
    from wb have m: "marked s1 = marked script \<union> {i..j}" by simp
    from wb have "first_word (assembly (opcodes ?se ! j)) = Some op" by blast
    then have fw: "first_word (assembly (opcodes s0 ! j)) = Some op"
      using code_of_eqD(3)[OF ce j] by simp
    from wb have nl: "\<not> linear op" by blast
    note ra = resolves_atI[OF res j]
    from ra fw have npk: "op \<notin> set object_prototype_keys"
      by (auto elim: resolves_at_word)
    note cat = category_dispatch[OF npk]
    have G1: "\<forall>a b. a \<in> marked s1 \<and> a \<notin> marked script \<and> a \<noteq> j \<and> (a, b) \<in> ?E \<longrightarrow> b \<in> marked s1"
      using walk_Broke_graph(1)[OF res ce w1] by simp
    have G2: "\<forall>x. i \<le> x \<and> x \<le> j \<longrightarrow> (i, x) \<in> ?E\<^sup>*"
      using walk_Broke_graph(2)[OF res ce w1] .
    have z1: "0 \<in> marked s1" using z m ij by auto
    note fin = after_successors[OF G1 G2 m ij]
    consider (t) "js_in op terminators"
      | (u) "\<not> js_in op terminators" "js_in op unconditionals"
      | (c) "\<not> js_in op terminators" "\<not> js_in op unconditionals" "js_in op conditionals"
      | (s) "\<not> js_in op terminators" "\<not> js_in op unconditionals" "\<not> js_in op conditionals"
            "js_in op switches"
      | (l) "\<not> js_in op terminators" "\<not> js_in op unconditionals" "\<not> js_in op conditionals"
            "\<not> js_in op switches"
      by blast
    then show ?thesis
    proof cases
      case t
      with p eqs(1) have r: "r = Inr s1" by simp
      from t cat(1) have "spec_category op = Terminator" by simp
      from succ_terminator[OF fw this] have "\<forall>b. (j, b) \<in> ?E \<longrightarrow> b \<in> marked s1"
        by (auto dest: spec_edgeD)
      from fin[OF closed_new_refl subset_refl this, of "{}"] r show ?thesis by simp
    next
      case u
      with cat(2) have "spec_category op = Unconditional" by simp
      from succ_unconditional[OF ra fw this] obtain t where
        t: "branchIndex s0 (assembly (opcodes s0 ! j)) = Some t" "t < length (opcodes s0)"
           "spec_successors s0 j = [t]" by blast
      have bi: "branchIndex s1 (assembly (opcodes s1 ! j)) = Some t"
        using branchIndex_code[OF c1 j] t(1) by simp
      with p u eqs(2) have r1: "reachable fuel s1 (Some t) = Some r" by simp
      have "t = 0 \<or> 0 \<in> marked s1" using z1 by simp
      from ih(1)[OF u r1[folded bi] res c1 bi t(2) this] obtain s' where
        s': "r = Inr s'" "t \<in> marked s'" "closed_new ?E (marked s1) (marked s')"
            "marked s' \<subseteq> marked s1 \<union> ?E\<^sup>* `` {t}" by blast
      have sub: "marked s1 \<subseteq> marked s'"
        using reachable_frame(1)[OF r1[unfolded s'(1)]] by (simp add: frame_def)
      have succ: "\<forall>b. (j, b) \<in> ?E \<longrightarrow> b \<in> marked s'"
        using t(3) s'(2) by (auto dest: spec_edgeD)
      have T: "\<forall>x \<in> {t}. (j, x) \<in> ?E" using spec_edgeI[OF j t(2)] t(3) by simp
      from fin[OF s'(3) sub succ s'(4) T] s'(1) show ?thesis by simp
    next
      case c
      with cat(3) have cc: "spec_category op = Conditional" by simp
      note sc = succ_conditional[OF ra fw cc]
      from p c eqs(3) obtain r1 where r1: "reachable fuel s1 (Some (j + 1)) = Some r1"
        by (cases "reachable fuel s1 (Some (j + 1))") auto
      have "j + 1 = 0 \<or> 0 \<in> marked s1" using z1 by simp
      from ih(2)[OF c r1 res c1 refl sc(1) this] obtain s2 where
        s2: "r1 = Inr s2" "j + 1 \<in> marked s2" "closed_new ?E (marked s1) (marked s2)"
            "marked s2 \<subseteq> marked s1 \<union> ?E\<^sup>* `` {j + 1}" by blast
      have r1': "reachable fuel s1 (Some (j + 1)) = Some (Inr s2)" using r1 s2(1) by simp
      have f2: "frame s1 s2" using reachable_frame(1)[OF r1'] .
      then have sub2: "marked s1 \<subseteq> marked s2" and c2: "code_of s2 = code_of s0"
        using c1 by (simp_all add: frame_def)
      have bi: "branchIndex s2 (assembly (opcodes s2 ! j))
                  = branchIndex s0 (assembly (opcodes s0 ! j))"
        using branchIndex_code[OF c2 j] .
      have e1: "(j, j + 1) \<in> ?E" using spec_edgeI[OF j sc(1)] sc(2,3)
        by (cases "branchIndex s0 (assembly (opcodes s0 ! j))") auto
      show ?thesis
      proof (cases "branchIndex s0 (assembly (opcodes s0 ! j))")
        case None
        with p c eqs(3) r1' bi have r: "r = Inr s2" by simp
        have succ: "\<forall>b. (j, b) \<in> ?E \<longrightarrow> b \<in> marked s2"
          using sc(2)[OF None] s2(2) by (auto dest: spec_edgeD)
        have T: "\<forall>x \<in> {j + 1}. (j, x) \<in> ?E" using e1 by simp
        from fin[OF s2(3) sub2 succ s2(4) T] r show ?thesis by simp
      next
        case (Some b)
        note scb = sc(3)[OF Some]
        show ?thesis
        proof (cases "b = 0")
          case True
          with Some p c eqs(3) r1' bi have r: "r = Inr s2" by simp
          have "0 \<in> marked s2" using z1 sub2 by blast
          then have succ: "\<forall>x. (j, x) \<in> ?E \<longrightarrow> x \<in> marked s2"
            using scb s2(2) True by (auto dest: spec_edgeD)
          have T: "\<forall>x \<in> {j + 1}. (j, x) \<in> ?E" using e1 by simp
          from fin[OF s2(3) sub2 succ s2(4) T] r show ?thesis by simp
        next
          case False
          with Some p c eqs(3) r1' bi have r2: "reachable fuel s2 (Some b) = Some r" by simp
          have bl: "b < length (opcodes s0)" using scb by simp
          have "b = 0 \<or> 0 \<in> marked s2" using z1 sub2 by blast
          from ih(3)[OF c r1' refl bi[unfolded Some] False r2 res c2 refl bl this] obtain s' where
            s': "r = Inr s'" "b \<in> marked s'" "closed_new ?E (marked s2) (marked s')"
                "marked s' \<subseteq> marked s2 \<union> ?E\<^sup>* `` {b}" by blast
          have sub3: "marked s2 \<subseteq> marked s'"
            using reachable_frame(1)[OF r2[unfolded s'(1)]] by (simp add: frame_def)
          have cl: "closed_new ?E (marked s1) (marked s')"
            using s2(3) s'(3) sub3 by (rule closed_new_trans)
          have sub: "marked s1 \<subseteq> marked s'" using sub2 sub3 by blast
          have succ: "\<forall>x. (j, x) \<in> ?E \<longrightarrow> x \<in> marked s'"
          proof (intro allI impI)
            fix x assume "(j, x) \<in> ?E"
            then have "x \<in> set (spec_successors s0 j)" by (rule spec_edgeD)
            then have "x = j + 1 \<or> x = b" using scb by simp
            then show "x \<in> marked s'" using s2(2) s'(2) sub3 by blast
          qed
          have snd: "marked s' \<subseteq> marked s1 \<union> ?E\<^sup>* `` {j + 1, b}"
            using s2(4) s'(4) by blast
          have T: "\<forall>x \<in> {j + 1, b}. (j, x) \<in> ?E"
            using e1 spec_edgeI[OF j bl] scb by simp
          from fin[OF cl sub succ snd T] s'(1) show ?thesis by simp
        qed
      qed
    next
      case s
      with cat(4) have cs: "spec_category op = Switch" by simp
      let ?asm1 = "assembly (opcodes s1 ! j)"
      let ?asm0 = "assembly (opcodes s0 ! j)"
      let ?p0 = "pc (opcodes s0 ! j)"
      have asm: "?asm1 = ?asm0" using code_of_eqD(3)[OF c1 j] .
      have pc: "pc (opcodes s1 ! j) = ?p0" using code_of_eqD(4)[OF c1 j] .
      from succ_switch[OF ra fw cs] obtain d0 t0 where
        d0: "find_ffset (hd (split_on (CHR 0x09) ?asm0)) = Some d0"
        and t0: "switch_index s0 ?p0 d0 = Some t0" "t0 < length (opcodes s0)"
        and tcs: "\<forall>c \<in> set (tl (split_on (CHR 0x09) ?asm0)).
                    \<exists>d t. case_offset c = Some d \<and> switch_index s0 ?p0 d = Some t
                          \<and> t < length (opcodes s0)"
        and sset: "set (spec_successors s0 j)
                     = insert t0 (case_targets s0 ?p0 (tl (split_on (CHR 0x09) ?asm0)))"
        by blast
      let ?cs = "tl (split_on (CHR 0x09) ?asm0)"
      have d1: "find_ffset (hd (split_on (CHR 0x09) ?asm1)) = Some d0" using d0 asm by simp
      have si: "switch_index s1 (pc (opcodes s1 ! j)) d0 = Some t0"
        using switch_index_code[OF c1] t0(1) pc by simp
      from p s eqs(4) d1 obtain r1 where
        r1: "reachable fuel s1 (switch_index s1 (pc (opcodes s1 ! j)) d0) = Some r1"
        by (cases "reachable fuel s1 (switch_index s1 (pc (opcodes s1 ! j)) d0)") auto
      have "t0 = 0 \<or> 0 \<in> marked s1" using z1 by simp
      from ih(4)[OF s d1 r1 res c1 si t0(2) this] obtain s2 where
        s2: "r1 = Inr s2" "t0 \<in> marked s2" "closed_new ?E (marked s1) (marked s2)"
            "marked s2 \<subseteq> marked s1 \<union> ?E\<^sup>* `` {t0}" by blast
      have r1': "reachable fuel s1 (switch_index s1 (pc (opcodes s1 ! j)) d0) = Some (Inr s2)"
        using r1 s2(1) by simp
      have f2: "frame s1 s2" using reachable_frame(1)[OF r1'] .
      then have sub2: "marked s1 \<subseteq> marked s2" and c2: "code_of s2 = code_of s0"
        using c1 by (simp_all add: frame_def)
      from p s eqs(4) d1 r1' have
        r2: "reachable_cases fuel s2 (pc (opcodes s1 ! j)) (tl (split_on (CHR 0x09) ?asm1)) = Some r"
        by simp
      have z2: "0 \<in> marked s2" using z1 sub2 by blast
      have tcs': "\<forall>c \<in> set (tl (split_on (CHR 0x09) ?asm1)).
                    \<exists>d t. case_offset c = Some d \<and> switch_index s0 (pc (opcodes s1 ! j)) d = Some t
                          \<and> t < length (opcodes s0)"
        using tcs asm pc by simp
      from ih(5)[OF s d1 r1' refl r2 res c2 z2 tcs'] asm pc obtain s' where
        s': "r = Inr s'" "case_targets s0 ?p0 ?cs \<subseteq> marked s'"
            "closed_new ?E (marked s2) (marked s')"
            "marked s' \<subseteq> marked s2 \<union> ?E\<^sup>* `` (case_targets s0 ?p0 ?cs)"
        by auto
      have sub3: "marked s2 \<subseteq> marked s'"
        using reachable_frame(2)[OF r2[unfolded s'(1)]] by (simp add: frame_def)
      have cl: "closed_new ?E (marked s1) (marked s')"
        using s2(3) s'(3) sub3 by (rule closed_new_trans)
      have sub: "marked s1 \<subseteq> marked s'" using sub2 sub3 by blast
      have succ: "\<forall>x. (j, x) \<in> ?E \<longrightarrow> x \<in> marked s'"
      proof (intro allI impI)
        fix x assume "(j, x) \<in> ?E"
        then have "x \<in> insert t0 (case_targets s0 ?p0 ?cs)" using sset by (auto dest: spec_edgeD)
        then show "x \<in> marked s'" using s2(2) sub3 s'(2) by blast
      qed
      have snd: "marked s' \<subseteq> marked s1 \<union> ?E\<^sup>* `` (insert t0 (case_targets s0 ?p0 ?cs))"
        using s2(4) s'(4) by blast
      have T: "\<forall>x \<in> insert t0 (case_targets s0 ?p0 ?cs). (j, x) \<in> ?E"
      proof
        fix x assume x: "x \<in> insert t0 (case_targets s0 ?p0 ?cs)"
        then have xs: "x \<in> set (spec_successors s0 j)" using sset by simp
        have "x < length (opcodes s0)"
          using x t0(2) tcs unfolding case_targets_def by auto
        then show "(j, x) \<in> ?E" using spec_edgeI[OF j _ xs] by simp
      qed
      from fin[OF cl sub succ snd T] s'(1) show ?thesis by simp
    next
      case l
      with cat have "spec_category op = Linear"
        by (cases "spec_category op") simp_all
      with nonlinear_category[OF npk nl] show ?thesis by simp
    qed
  qed
next
  case (3 fuel script pc0)
  from "3.prems"(1) have "r = Inr script" by simp
  then show ?case by (auto simp: case_targets_def closed_new_refl)
next
  case (4 fuel script pc0 c cs)
  let ?E = "spec_edges s0"
  note res = "4.prems"(2) and cd = "4.prems"(3) and z = "4.prems"(4) and tc = "4.prems"(5)
  from tc obtain d t where d: "case_offset c = Some d" and t: "switch_index s0 pc0 d = Some t"
    "t < length (opcodes s0)" by auto
  have si: "switch_index script pc0 d = Some t" using switch_index_code[OF cd] t(1) by simp
  from "4.prems"(1) d obtain r1 where
    r1: "reachable fuel script (switch_index script pc0 d) = Some r1"
    by (cases "reachable fuel script (switch_index script pc0 d)") auto
  have "t = 0 \<or> 0 \<in> marked script" using z by simp
  from "4.IH"(1)[OF d r1 res cd si t(2) this] obtain s2 where
    s2: "r1 = Inr s2" "t \<in> marked s2" "closed_new ?E (marked script) (marked s2)"
        "marked s2 \<subseteq> marked script \<union> ?E\<^sup>* `` {t}" by blast
  have r1': "reachable fuel script (switch_index script pc0 d) = Some (Inr s2)"
    using r1 s2(1) by simp
  have f2: "frame script s2" using reachable_frame(1)[OF r1'] .
  then have sub2: "marked script \<subseteq> marked s2" and c2: "code_of s2 = code_of s0"
    using cd by (simp_all add: frame_def)
  from "4.prems"(1) d r1' have r2: "reachable_cases fuel s2 pc0 cs = Some r" by simp
  have z2: "0 \<in> marked s2" using z sub2 by blast
  have tcs: "\<forall>c \<in> set cs. \<exists>d t. case_offset c = Some d \<and> switch_index s0 pc0 d = Some t
                             \<and> t < length (opcodes s0)" using tc by simp
  from "4.IH"(2)[OF d r1' refl r2 res c2 z2 tcs] obtain s' where
    s': "r = Inr s'" "case_targets s0 pc0 cs \<subseteq> marked s'"
        "closed_new ?E (marked s2) (marked s')"
        "marked s' \<subseteq> marked s2 \<union> ?E\<^sup>* `` (case_targets s0 pc0 cs)" by blast
  have sub3: "marked s2 \<subseteq> marked s'"
    using reachable_frame(2)[OF r2[unfolded s'(1)]] by (simp add: frame_def)
  have ct: "case_targets s0 pc0 (c # cs) = insert t (case_targets s0 pc0 cs)"
    using d t(1) by (rule case_targets_Cons)
  have "case_targets s0 pc0 (c # cs) \<subseteq> marked s'" unfolding ct using s2(2) sub3 s'(2) by blast
  moreover have "closed_new ?E (marked script) (marked s')"
    using s2(3) s'(3) sub3 by (rule closed_new_trans)
  moreover have "marked s' \<subseteq> marked script \<union> ?E\<^sup>* `` (case_targets s0 pc0 (c # cs))"
    unfolding ct using s2(4) s'(4) by blast
  ultimately show ?case using s'(1) by simp
qed

subsection \<open>Reachability: correctness and termination of the analysis\<close>

lemma unvisited_marked: "unvisited s \<Longrightarrow> marked s = {}"
  by (auto simp: unvisited_def marked_def list_all_length)

lemma unmarked_le: "unmarked_count s \<le> length (opcodes s)"
  by (simp add: unmarked_count_def)

lemma closed_reach:
  assumes "closed_new E {} M" "i \<in> M" "(i, x) \<in> E\<^sup>*"
  shows "x \<in> M"
  using assms(3,1,2)
  by (induction rule: rtrancl_induct) (auto simp: closed_new_def)

text \<open>
  Claim C1, as stated, for every script whose decoded branch and switch targets resolve
  through its address index. In \<open>example_branch_last\<close> both branch targets resolve, yet
  the call \<^verbatim>\<open>reachable(script, opcodeIndex+1)\<close> for the conditional branch at the last position
  reads past the end of the instruction array and raises a \<^verbatim>\<open>TypeError\<close>, before the
  branch target (position 1) has been marked.
\<close>

theorem checkReachability_branch_last_counterexample:
  "branchIndex example_branch_last (assembly (opcodes example_branch_last ! 0)) = Some 2
   \<and> branchIndex example_branch_last (assembly (opcodes example_branch_last ! 2)) = Some 1
   \<and> checkReachability 4 example_branch_last = Some (Inl TypeError)"
  by code_simp

text \<open>
  Claim C1, amended. Let the script be well formed in the sense of \<open>resolves\<close>: it has at
  least one instruction; every instruction has a mnemonic, which is not the name of an
  inherited property; every unconditional branch has a target that decodes from its text
  and resolves through the address index to a position of the script; no conditional branch
  is the last instruction, and a target that decodes from the text of a conditional branch
  resolves to a position of the script; the default offset and every case offset of a
  switch decode, and the address of the switch plus each offset resolves to a position of
  the script. Let no instruction be marked yet. Then \<^verbatim>\<open>checkReachability\<close> returns, whatever
  depth bound above the number of instructions the model is given, and an instruction is
  marked reachable in the result if and only if it is reachable from position 0 under the
  successor rules, cycles included.
\<close>

theorem checkReachability_marks_reachable:
  assumes res: "resolves script" and unv: "unvisited script"
    and n: "length (opcodes script) < n"
  shows "\<exists>script'. checkReachability n script = Some (Inr script')
           \<and> code_of script' = code_of script
           \<and> (\<forall>i < length (opcodes script).
                 op_reachable (opcodes script' ! i) \<longleftrightarrow> i \<in> spec_reachable script)"
proof -
  let ?E = "spec_edges script"
  have "unmarked_count script < n" using unmarked_le[of script] n by simp
  then obtain r where r: "reachable n script (Some 0) = Some r"
    using reachable_result(1)[of script n "Some 0"] by auto
  from res have pos: "0 < length (opcodes script)" by (simp add: resolves_def)
  from reachable_marks(1)[OF r res refl refl pos] obtain s' where
    s': "r = Inr s'" "0 \<in> marked s'" "closed_new ?E (marked script) (marked s')"
        "marked s' \<subseteq> marked script \<union> ?E\<^sup>* `` {0}" by blast
  have m0: "marked script = {}" using unv by (rule unvisited_marked)
  have f: "frame script s'" using reachable_frame(1)[OF r[unfolded s'(1)]] .
  then have c: "code_of s' = code_of script" by (simp add: frame_def)
  have len: "length (opcodes s') = length (opcodes script)" using f by (rule frame_length)
  have eq: "marked s' = spec_reachable script"
  proof
    show "marked s' \<subseteq> spec_reachable script"
      using s'(4) unfolding m0 spec_reachable_def by auto
    show "spec_reachable script \<subseteq> marked s'"
      using closed_reach[OF s'(3)[unfolded m0] s'(2)] unfolding spec_reachable_def by auto
  qed
  have "\<forall>i < length (opcodes script).
          op_reachable (opcodes s' ! i) \<longleftrightarrow> i \<in> spec_reachable script"
    unfolding eq[symmetric] using len by (simp add: marked_def)
  with r s'(1) c show ?thesis by (auto simp: checkReachability_def)
qed

theorem checkReachability_marks_reachable_witness:
  "resolves example_loop \<and> unvisited example_loop \<and> length (opcodes example_loop) < 5
   \<and> (\<exists>script'. checkReachability 5 example_loop = Some (Inr script')
          \<and> code_of script' = code_of example_loop
          \<and> (\<forall>i < length (opcodes example_loop).
                op_reachable (opcodes script' ! i) \<longleftrightarrow> i \<in> spec_reachable example_loop))"
proof -
  have h1: "resolves example_loop" by code_simp
  have h2: "unvisited example_loop" by code_simp
  have h3: "length (opcodes example_loop) < 5" by code_simp
  from checkReachability_marks_reachable[OF h1 h2 h3] h1 h2 h3 show ?thesis by blast
qed

text \<open>Each condition of \<open>resolves\<close> is needed. The analysis raises a \<^verbatim>\<open>TypeError\<close> on a
  script without instructions (\<^verbatim>\<open>script.opcodes[0]\<close> is \<^verbatim>\<open>undefined\<close>), on an unconditional
  branch without a target (\<^verbatim>\<open>branchIndex\<close> returns \<^verbatim>\<open>null\<close>, which is passed on as a position),
  and on a switch with a case line that does not decode (\<^verbatim>\<open>match\<close> returns \<^verbatim>\<open>null\<close>). On a
  mnemonic that is the name of an inherited property, \<^verbatim>\<open>op in terminators\<close> is true and the
  analysis stops there, although the successor rules make the instruction linear.\<close>

lemma checkReachability_empty_raises:
  "opcodes script = [] \<Longrightarrow> checkReachability (Suc n) script = Some (Inl TypeError)"
  by (simp add: checkReachability_def reachable.simps(2))

lemma checkReachability_goto_bare_raises:
  "checkReachability 3 example_goto_bare = Some (Inl TypeError)"
  by code_simp

lemma checkReachability_switch_undecoded_raises:
  "checkReachability 3 example_switch_undecoded = Some (Inl TypeError)"
  by code_simp

lemma checkReachability_inherited_stops:
  "map_option (map_sum id (\<lambda>s. map op_reachable (opcodes s)))
     (checkReachability 3 example_inherited) = Some (Inr [True, False])
   \<and> spec_successors example_inherited 0 = [1]"
  by code_simp

text \<open>The depth bound that the parser passes is enough.\<close>

lemma checkReachability_enough:
  "checkReachability (Suc (length (opcodes script))) script \<noteq> None"
proof -
  have "unmarked_count script < Suc (length (opcodes script))"
    using unmarked_le[of script] by simp
  then show ?thesis
    using reachable_result(1)[of script "Suc (length (opcodes script))" "Some 0"]
    by (simp add: checkReachability_def)
qed

text \<open>
  Claim C9. \<^verbatim>\<open>checkReachability\<close> terminates on every script, and so on every script whose
  targets resolve and on every cyclic one: as soon as the bound on the recursion depth
  exceeds the number of instructions the model gives a result, the same for every such
  bound. (Every recursive call follows the marking of an instruction that was not marked,
  so the depth never exceeds the number of unmarked instructions.) The result is either
  the marked script or the \<^verbatim>\<open>TypeError\<close> that the source raises.
\<close>

theorem checkReachability_terminates:
  "\<exists>r. \<forall>n. length (opcodes script) < n \<longrightarrow> checkReachability n script = Some r"
proof -
  let ?n0 = "Suc (length (opcodes script))"
  have "unmarked_count script < ?n0" using unmarked_le[of script] by simp
  then obtain r where r: "reachable ?n0 script (Some 0) = Some r"
    using reachable_result(1)[of script ?n0 "Some 0"] by auto
  have "\<forall>n. length (opcodes script) < n \<longrightarrow> checkReachability n script = Some r"
  proof (intro allI impI)
    fix n assume "length (opcodes script) < n"
    then have "?n0 \<le> n" by simp
    from reachable_fuel_mono(1)[OF r this] show "checkReachability n script = Some r"
      by (simp add: checkReachability_def)
  qed
  then show ?thesis by blast
qed

theorem checkReachability_terminates_witness:
  "length (opcodes example_loop) < 5
   \<and> (\<exists>script'. checkReachability 5 example_loop = Some (Inr script')
          \<and> map op_reachable (opcodes script') = [True, True, True, False])"
proof -
  have l: "length (opcodes example_loop) < 5" by code_simp
  from checkReachability_terminates[of example_loop] obtain r where
    "\<forall>n. length (opcodes example_loop) < n \<longrightarrow> checkReachability n example_loop = Some r"
    by blast
  with l have r: "checkReachability 5 example_loop = Some r" by blast
  have "map_option (map_sum id (\<lambda>s. map op_reachable (opcodes s)))
          (checkReachability 5 example_loop) = Some (Inr [True, True, True, False])"
    by code_simp
  with r obtain s' where "r = Inr s'" "map op_reachable (opcodes s') = [True, True, True, False]"
    by (cases r) auto
  with r have "\<exists>script'. checkReachability 5 example_loop = Some (Inr script')
          \<and> map op_reachable (opcodes script') = [True, True, True, False]" by simp
  with l show ?thesis by (rule conjI)
qed

subsection \<open>Reachability: the successors of a switch\<close>

lemma switches_dispatch:
  assumes "op \<in> set switches"
  shows "\<not> js_in op terminators" "\<not> js_in op unconditionals" "\<not> js_in op conditionals"
    "js_in op switches" "\<not> linear op"
  using assms
  by (auto simp: switches_def js_in_def terminators_def unconditionals_def conditionals_def
        object_prototype_keys_def linear_def nonlinear_def)

text \<open>A call that returns was given a position of the script, and this position is marked
  when it returns.\<close>

lemma reachable_start:
  assumes "reachable n s idx = Some (Inr s')"
  shows "\<exists>j. idx = Some j \<and> j < length (opcodes s) \<and> j \<in> marked s'"
proof -
  from assms obtain fuel where n: "n = Suc fuel" by (cases n) auto
  from assms n obtain j where idx: "idx = Some j" and lt: "j < length (opcodes s)"
    by (auto simp: reachable.simps(2) split: option.splits if_splits)
  let ?se = "set_entrypoint s j"
  from assms n idx lt obtain r where w: "walk ?se j = Inr r"
    by (auto simp: reachable.simps(2) split: sum.splits)
  have lt': "j < length (opcodes ?se)" using lt by simp
  have "j \<in> marked s'"
  proof (cases r)
    case (Returned s1)
    with assms n idx lt w have s': "s' = s1" by (simp add: reachable.simps(2))
    from walk_Returned[OF w[unfolded Returned]] obtain k where
      k: "j \<le> k" "marked s1 = marked ?se \<union> {j..<k}" "length (opcodes ?se) \<le> k \<or> k \<in> marked ?se"
      by blast
    show ?thesis
    proof (cases "k = j")
      case True
      with k(3) lt' have "j \<in> marked ?se" by simp
      with k(2) s' show ?thesis by simp
    next
      case False
      with k(1) have "j \<in> {j..<k}" by simp
      with k(2) s' show ?thesis by simp
    qed
  next
    case (Broke s1 jj op)
    note wb = walk_Broke[OF w[unfolded Broke]]
    from wb have "j \<le> jj" "marked s1 = marked ?se \<union> {j..jj}" by blast+
    then have m1: "j \<in> marked s1" by simp
    note eq = reachable_Suc_Broke[OF lt w[unfolded Broke], of fuel]
    have r: "reachable (Suc fuel) s (Some j) = Some (Inr s')" using assms n idx by simp
    have "frame s1 s'"
    proof (cases "js_in op terminators")
      case True
      with eq(1) r show ?thesis by (simp add: frame_refl)
    next
      case nt: False
      show ?thesis
      proof (cases "js_in op unconditionals")
        case True
        with eq(2)[OF nt] r show ?thesis using reachable_frame(1) by simp
      next
        case nu: False
        show ?thesis
        proof (cases "js_in op conditionals")
          case True
          from eq(3)[OF nt nu True] r obtain s2 where
            r1: "reachable fuel s1 (Some (jj + 1)) = Some (Inr s2)"
            and r2: "(case branchIndex s2 (assembly (opcodes s2 ! jj)) of
                        None \<Rightarrow> Some (Inr s2)
                      | Some branch \<Rightarrow>
                          if branch = 0 then Some (Inr s2)
                          else reachable fuel s2 (Some branch)) = Some (Inr s')"
            by (auto split: option.splits sum.splits)
          have f1: "frame s1 s2" using reachable_frame(1)[OF r1] .
          have "frame s2 s'"
            using r2 reachable_frame(1)
            by (auto simp: frame_refl split: option.splits if_splits)
          with f1 show ?thesis by (rule frame_trans)
        next
          case nc: False
          show ?thesis
          proof (cases "js_in op switches")
            case True
            from eq(4)[OF nt nu nc True] r obtain d s2 where
              r1: "reachable fuel s1 (switch_index s1 (pc (opcodes s1 ! jj)) d) = Some (Inr s2)"
              and r2: "reachable_cases fuel s2 (pc (opcodes s1 ! jj))
                         (tl (split_on (CHR 0x09) (assembly (opcodes s1 ! jj)))) = Some (Inr s')"
              by (auto split: option.splits sum.splits)
            from reachable_frame(1)[OF r1] reachable_frame(2)[OF r2] show ?thesis
              by (rule frame_trans)
          next
            case False
            with eq(5)[OF nt nu nc] r show ?thesis by (simp add: frame_refl)
          qed
        qed
      qed
    qed
    with m1 show ?thesis by (auto simp: frame_def)
  qed
  with idx lt show ?thesis by blast
qed

text \<open>The loop over the case lines: when it returns, every case line has decoded, and the
  address of the switch plus each offset is a key of the address index that gives a
  position, which is marked.\<close>

lemma reachable_cases_marked:
  "reachable_cases fuel s pc0 cs = Some (Inr s') \<Longrightarrow>
     \<exists>ds. map case_offset cs = map Some ds
        \<and> (\<forall>d \<in> set ds. \<exists>t. switch_index s pc0 d = Some t \<and> t < length (opcodes s)
                              \<and> t \<in> marked s')"
proof (induction cs arbitrary: s)
  case Nil
  then show ?case by simp
next
  case (Cons c cs)
  from Cons.prems obtain d s2 where d: "case_offset c = Some d"
    and r1: "reachable fuel s (switch_index s pc0 d) = Some (Inr s2)"
    and r2: "reachable_cases fuel s2 pc0 cs = Some (Inr s')"
    by (auto split: option.splits sum.splits)
  from reachable_start[OF r1] obtain t where
    t: "switch_index s pc0 d = Some t" "t < length (opcodes s)" "t \<in> marked s2" by blast
  have f1: "frame s s2" using reachable_frame(1)[OF r1] .
  have f2: "frame s2 s'" using reachable_frame(2)[OF r2] .
  from Cons.IH[OF r2] obtain ds where ds: "map case_offset cs = map Some ds"
    "\<forall>d \<in> set ds. \<exists>t. switch_index s2 pc0 d = Some t \<and> t < length (opcodes s2) \<and> t \<in> marked s'"
    by blast
  have idx: "switch_index s2 pc0 x = switch_index s pc0 x" for x
    using f1 switch_index_code[of s2 s pc0 x] by (simp add: frame_def)
  have len: "length (opcodes s2) = length (opcodes s)" using f1 by (rule frame_length)
  have "t \<in> marked s'" using t(3) f2 by (auto simp: frame_def)
  with t ds d show ?case
    by (intro exI[of _ "d # ds"]) (simp add: idx len)
qed

text \<open>The same for a call that arrives at a switch that is not marked yet.\<close>

lemma switch_targets_marked:
  assumes i: "i < length (opcodes s)" and nr: "\<not> op_reachable (opcodes s ! i)"
    and w: "first_word (assembly (opcodes s ! i)) = Some op" and sw: "op \<in> set switches"
    and r: "reachable n s (Some i) = Some (Inr s')"
  shows "\<exists>d0 ds. find_ffset (hd (split_on (CHR 0x09) (assembly (opcodes s ! i)))) = Some d0
           \<and> map case_offset (tl (split_on (CHR 0x09) (assembly (opcodes s ! i)))) = map Some ds
           \<and> (\<forall>d \<in> set (d0 # ds).
                 \<exists>t. map_of (pcToOpcodeIndex s)
                        (string_of_nat (pc (opcodes s ! i) + nat_of_digits d)) = Some t
                   \<and> t < length (opcodes s) \<and> op_reachable (opcodes s' ! t))"
proof -
  from r obtain fuel where n: "n = Suc fuel" by (cases n) auto
  let ?se = "set_entrypoint s i"
  let ?s1 = "set_reachable ?se i"
  have ce: "code_of ?se = code_of s" by simp
  have c1: "code_of ?s1 = code_of s" by simp
  have nr': "\<not> op_reachable (opcodes ?se ! i)" using nr by (simp add: reachable_flag_set)
  have w': "first_word (assembly (opcodes ?se ! i)) = Some op"
    using w code_of_eqD(3)[OF ce i] by simp
  have wk: "walk ?se i = Inr (Broke ?s1 i op)"
    using i nr' w' switches_dispatch(5)[OF sw] by (simp add: walk.simps[of ?se i])
  have asm: "assembly (opcodes ?s1 ! i) = assembly (opcodes s ! i)"
    using code_of_eqD(3)[OF c1 i] .
  have pc: "pc (opcodes ?s1 ! i) = pc (opcodes s ! i)"
    using code_of_eqD(4)[OF c1 i] .
  have len1: "length (opcodes ?s1) = length (opcodes s)" by simp
  note sd = switches_dispatch[OF sw]
  let ?p = "pc (opcodes s ! i)"
  let ?pieces = "split_on (CHR 0x09) (assembly (opcodes s ! i))"
  from reachable_Suc_Broke(4)[OF i wk sd(1) sd(2) sd(3) sd(4), of fuel, unfolded asm pc] r n
  have body: "(case find_ffset (hd ?pieces) of
                 None \<Rightarrow> Some (Inl TypeError)
               | Some d \<Rightarrow>
                   (case reachable fuel ?s1 (switch_index ?s1 ?p d) of
                      None \<Rightarrow> None
                    | Some (Inl e) \<Rightarrow> Some (Inl e)
                    | Some (Inr script2) \<Rightarrow> reachable_cases fuel script2 ?p (tl ?pieces)))
              = Some (Inr s')"
    by simp
  then obtain d0 s2 where d0: "find_ffset (hd ?pieces) = Some d0"
    and r1: "reachable fuel ?s1 (switch_index ?s1 ?p d0) = Some (Inr s2)"
    and r2: "reachable_cases fuel s2 ?p (tl ?pieces) = Some (Inr s')"
    by (auto split: option.splits sum.splits)
  have f1: "frame ?s1 s2" using reachable_frame(1)[OF r1] .
  have f2: "frame s2 s'" using reachable_frame(2)[OF r2] .
  have c2: "code_of s2 = code_of s" using f1 c1 by (simp add: frame_def)
  have len2: "length (opcodes s2) = length (opcodes s)" using frame_length[OF f1] by simp
  have len': "length (opcodes s') = length (opcodes s)" using frame_length[OF f2] len2 by simp
  from reachable_start[OF r1] obtain t0 where
    t0: "switch_index ?s1 ?p d0 = Some t0" "t0 < length (opcodes ?s1)" "t0 \<in> marked s2" by blast
  from reachable_cases_marked[OF r2] obtain ds where
    ds: "map case_offset (tl ?pieces) = map Some ds"
    "\<forall>d \<in> set ds. \<exists>t. switch_index s2 ?p d = Some t \<and> t < length (opcodes s2) \<and> t \<in> marked s'"
    by blast
  have "\<exists>t. map_of (pcToOpcodeIndex s) (string_of_nat (?p + nat_of_digits d)) = Some t
          \<and> t < length (opcodes s) \<and> op_reachable (opcodes s' ! t)"
    if d: "d \<in> set (d0 # ds)" for d
  proof (cases "d = d0")
    case True
    have "t0 \<in> marked s'" using t0(3) f2 by (auto simp: frame_def)
    then have m: "op_reachable (opcodes s' ! t0)" by (simp add: marked_def)
    have "switch_index s ?p d0 = Some t0"
      using t0(1) switch_index_code[OF c1, of ?p d0] by simp
    then have "map_of (pcToOpcodeIndex s) (string_of_nat (?p + nat_of_digits d0)) = Some t0"
      by (simp add: switch_index_def)
    with m t0(2) True show ?thesis by simp
  next
    case False
    with d have "d \<in> set ds" by simp
    with ds(2) obtain t where "switch_index s2 ?p d = Some t" "t < length (opcodes s2)"
      "t \<in> marked s'" by blast
    note t = this
    have m: "op_reachable (opcodes s' ! t)" using t(3) by (simp add: marked_def)
    have "switch_index s ?p d = Some t"
      using t(1) switch_index_code[OF c2, of ?p d] by simp
    then have "map_of (pcToOpcodeIndex s) (string_of_nat (?p + nat_of_digits d)) = Some t"
      by (simp add: switch_index_def)
    with m t(2) len2 show ?thesis by simp
  qed
  with d0 ds(1) show ?thesis by blast
qed


lemma switch_category:
  assumes "op \<in> set switches"
  shows "spec_category op = Switch"
proof -
  note sd = switches_dispatch[OF assms]
  from sd(1,2,3) have "op \<notin> set terminators" "op \<notin> set unconditionals"
    "op \<notin> set conditionals" by (simp_all add: js_in_def)
  with assms show ?thesis by (simp add: spec_category_def)
qed

lemma switch_edges:
  assumes w: "first_word (assembly (opcodes s ! i)) = Some op" and sw: "op \<in> set switches"
    and d0: "find_ffset (hd (split_on (CHR 0x09) (assembly (opcodes s ! i)))) = Some d0"
    and ds: "map case_offset (tl (split_on (CHR 0x09) (assembly (opcodes s ! i)))) = map Some ds"
    and e: "(i, t) \<in> spec_edges s"
  shows "\<exists>d \<in> set (d0 # ds).
           map_of (pcToOpcodeIndex s) (string_of_nat (pc (opcodes s ! i) + nat_of_digits d))
             = Some t"
proof -
  have "spec_successors s i = List.map_filter id (switch_targets s i)"
    using w switch_category[OF sw] by (simp add: spec_successors_def)
  with spec_edgeD[OF e] have "Some t \<in> set (switch_targets s i)"
    by (simp add: map_filter_id_set)
  moreover have "switch_targets s i
      = map (\<lambda>d. switch_index s (pc (opcodes s ! i)) d) (d0 # ds)"
    using d0 ds by (simp add: switch_targets_def switch_offsets_def comp_def)
  ultimately have "Some t \<in> (\<lambda>d. switch_index s (pc (opcodes s ! i)) d) ` set (d0 # ds)"
    by (simp only: set_map)
  then obtain d where d: "d \<in> set (d0 # ds)" "Some t = switch_index s (pc (opcodes s ! i)) d"
    by blast
  from d(2) have "switch_index s (pc (opcodes s ! i)) d = Some t" by (rule sym)
  with d(1) show ?thesis unfolding switch_index_def by blast
qed

text \<open>
  Claim C8. Let \<^verbatim>\<open>reachable\<close> be called at a switch instruction that is not marked yet, whose
  text decodes to the default offset \<open>d0\<close> and the case offsets \<open>ds\<close>. Whenever the call
  returns, each offset added to the address of the switch is a key of the address index,
  and the instruction at the position found there is marked reachable. In a script that is
  well formed in the sense of \<open>resolves\<close> the call does return, and every instruction it
  has marked, other than the switch itself, is reachable in the graph of the script from one
  of these positions: the switch has these successors and no other. For the switch at
  address 100 with default offset 10 and one case offset 20 the instructions at the
  addresses 110 and 120 are marked, and those at 105 and 115 are not.
\<close>

theorem switch_successors_resolved:
  assumes i: "i < length (opcodes script)" and nr: "\<not> op_reachable (opcodes script ! i)"
    and w: "first_word (assembly (opcodes script ! i)) = Some op" and sw: "op \<in> set switches"
    and d0: "find_ffset (hd (split_on (CHR 0x09) (assembly (opcodes script ! i)))) = Some d0"
    and ds: "map case_offset (tl (split_on (CHR 0x09) (assembly (opcodes script ! i))))
               = map Some ds"
  shows "(\<forall>script'. reachable n script (Some i) = Some (Inr script') \<longrightarrow>
            (\<forall>d \<in> set (d0 # ds).
               \<exists>t. map_of (pcToOpcodeIndex script)
                      (string_of_nat (pc (opcodes script ! i) + nat_of_digits d)) = Some t
                 \<and> t < length (opcodes script) \<and> op_reachable (opcodes script' ! t)))
       \<and> (resolves script \<and> (i = 0 \<or> op_reachable (opcodes script ! 0))
            \<and> length (opcodes script) < n \<longrightarrow>
            (\<exists>script'. reachable n script (Some i) = Some (Inr script')
               \<and> (\<forall>j < length (opcodes script).
                     op_reachable (opcodes script' ! j) \<longrightarrow>
                       op_reachable (opcodes script ! j) \<or> j = i
                       \<or> (\<exists>d \<in> set (d0 # ds). \<exists>t.
                             map_of (pcToOpcodeIndex script)
                               (string_of_nat (pc (opcodes script ! i) + nat_of_digits d))
                                = Some t
                             \<and> (t, j) \<in> (spec_edges script)\<^sup>*))))"
proof (intro conjI allI impI)
  fix script' assume r: "reachable n script (Some i) = Some (Inr script')"
  from switch_targets_marked[OF i nr w sw r] obtain d0' ds' where
    a: "find_ffset (hd (split_on (CHR 0x09) (assembly (opcodes script ! i)))) = Some d0'"
       "map case_offset (tl (split_on (CHR 0x09) (assembly (opcodes script ! i)))) = map Some ds'"
    and b: "\<forall>d \<in> set (d0' # ds').
              \<exists>t. map_of (pcToOpcodeIndex script)
                     (string_of_nat (pc (opcodes script ! i) + nat_of_digits d)) = Some t
                \<and> t < length (opcodes script) \<and> op_reachable (opcodes script' ! t)"
    by blast
  from a(1) d0 have "d0' = d0" by simp
  moreover have "ds' = ds"
  proof -
    from a(2) ds have "map Some ds' = map Some ds" by simp
    then have "map the (map Some ds') = map the (map Some ds)" by (rule arg_cong)
    then show ?thesis by (simp add: comp_def)
  qed
  ultimately show "\<forall>d \<in> set (d0 # ds).
        \<exists>t. map_of (pcToOpcodeIndex script)
               (string_of_nat (pc (opcodes script ! i) + nat_of_digits d)) = Some t
          \<and> t < length (opcodes script) \<and> op_reachable (opcodes script' ! t)"
    using b by simp
next
  let ?E = "spec_edges script"
  assume h: "resolves script \<and> (i = 0 \<or> op_reachable (opcodes script ! 0))
               \<and> length (opcodes script) < n"
  then have res: "resolves script" and n: "length (opcodes script) < n" by simp_all
  have start: "i = 0 \<or> 0 \<in> marked script" using h i by (auto simp: marked_def)
  have "unmarked_count script < n" using unmarked_le[of script] n by simp
  then obtain r where r: "reachable n script (Some i) = Some r"
    using reachable_result(1)[of script n "Some i"] by auto
  from reachable_marks(1)[OF r res refl refl i start] obtain s' where
    s': "r = Inr s'" "marked s' \<subseteq> marked script \<union> ?E\<^sup>* `` {i}" by blast
  have "op_reachable (opcodes script ! j) \<or> j = i
          \<or> (\<exists>d \<in> set (d0 # ds). \<exists>t.
                map_of (pcToOpcodeIndex script)
                  (string_of_nat (pc (opcodes script ! i) + nat_of_digits d)) = Some t
                \<and> (t, j) \<in> ?E\<^sup>*)"
    if j: "j < length (opcodes script)" and m: "op_reachable (opcodes s' ! j)" for j
  proof (cases "op_reachable (opcodes script ! j) \<or> j = i")
    case True
    then show ?thesis by blast
  next
    case False
    have len: "length (opcodes s') = length (opcodes script)"
      using reachable_frame(1)[OF r[unfolded s'(1)]] by (rule frame_length)
    from j m len have "j \<in> marked s'" by (simp add: marked_def)
    moreover from False j have "j \<notin> marked script" by (simp add: marked_def)
    ultimately have "(i, j) \<in> ?E\<^sup>*" using s'(2) by blast
    moreover from False have "i \<noteq> j" by blast
    ultimately obtain t where t: "(i, t) \<in> ?E" "(t, j) \<in> ?E\<^sup>*"
      by (meson converse_rtranclE)
    from switch_edges[OF w sw d0 ds t(1)] t(2) show ?thesis by blast
  qed
  with r s'(1) show "\<exists>script'. reachable n script (Some i) = Some (Inr script')
               \<and> (\<forall>j < length (opcodes script).
                     op_reachable (opcodes script' ! j) \<longrightarrow>
                       op_reachable (opcodes script ! j) \<or> j = i
                       \<or> (\<exists>d \<in> set (d0 # ds). \<exists>t.
                             map_of (pcToOpcodeIndex script)
                               (string_of_nat (pc (opcodes script ! i) + nat_of_digits d))
                                = Some t
                             \<and> (t, j) \<in> (spec_edges script)\<^sup>*))"
    by blast
qed

theorem switch_successors_resolved_witness:
  "pc (opcodes example_switch ! 0) = 100
   \<and> find_ffset (hd (split_on (CHR 0x09) (assembly (opcodes example_switch ! 0)))) = Some ''10''
   \<and> map case_offset (tl (split_on (CHR 0x09) (assembly (opcodes example_switch ! 0))))
        = map Some [''20'']
   \<and> resolves example_switch
   \<and> map_of (pcToOpcodeIndex example_switch) ''110'' = Some 2
   \<and> map_of (pcToOpcodeIndex example_switch) ''120'' = Some 4
   \<and> (\<exists>script'. reachable 6 example_switch (Some 0) = Some (Inr script')
         \<and> map (\<lambda>x. (pc x, op_reachable x)) (opcodes script')
             = [(100, True), (105, False), (110, True), (115, False), (120, True)])"
proof -
  have h1: "0 < length (opcodes example_switch)" by code_simp
  have h2: "\<not> op_reachable (opcodes example_switch ! 0)" by code_simp
  have h3: "first_word (assembly (opcodes example_switch ! 0)) = Some ''tableswitch''"
    by code_simp
  have h4: "''tableswitch'' \<in> set switches" by code_simp
  have h5: "find_ffset (hd (split_on (CHR 0x09) (assembly (opcodes example_switch ! 0))))
              = Some ''10''" by code_simp
  have h6: "map case_offset (tl (split_on (CHR 0x09) (assembly (opcodes example_switch ! 0))))
              = map Some [''20'']" by code_simp
  have h7: "resolves example_switch" by code_simp
  have h8: "length (opcodes example_switch) < 6" by code_simp
  have p: "pc (opcodes example_switch ! 0) = 100" by code_simp
  have i1: "map_of (pcToOpcodeIndex example_switch) ''110'' = Some 2" by code_simp
  have i2: "map_of (pcToOpcodeIndex example_switch) ''120'' = Some 4" by code_simp
  from switch_successors_resolved[OF h1 h2 h3 h4 h5 h6, of 6] h7 h8
  obtain s' where r: "reachable 6 example_switch (Some 0) = Some (Inr s')" by blast
  have v: "map_option (map_sum id (\<lambda>s. map (\<lambda>x. (pc x, op_reachable x)) (opcodes s)))
             (reachable 6 example_switch (Some 0))
           = Some (Inr [(100, True), (105, False), (110, True), (115, False), (120, True)])"
    by code_simp
  from v r have marks: "map (\<lambda>x. (pc x, op_reachable x)) (opcodes s')
             = [(100, True), (105, False), (110, True), (115, False), (120, True)]" by simp
  from r marks have "\<exists>script'. reachable 6 example_switch (Some 0) = Some (Inr script')
         \<and> map (\<lambda>x. (pc x, op_reachable x)) (opcodes script')
             = [(100, True), (105, False), (110, True), (115, False), (120, True)]"
    by (intro exI conjI)
  with p h5 h6 h7 i1 i2 show ?thesis by (intro conjI)
qed


subsection \<open>Lines that the stored snapshot does not have\<close>

text \<open>
  Claim C4. When the stored snapshot has no entry at an index of the new snapshot, the new
  line is adopted and \<^verbatim>\<open>onLineUpdate\<close> is emitted with the 1-based line number, but the
  reconciliation does not continue: the comparison that follows reads
  \<^verbatim>\<open>oldline.coverage\<close> of \<^verbatim>\<open>undefined\<close> and \<^verbatim>\<open>parseData\<close> raises a \<^verbatim>\<open>TypeError\<close>. Here the
  engine has parsed \<open>trace_line1\<close> and parses \<open>trace_line2\<close>.
\<close>

theorem adopted_line_raises:
  "(case parseData new_engine trace_line1 of
      (st, evs, err) \<Rightarrow>
        err = None \<and>
        parseData st trace_line2 =
          (\<lparr>filenames =
              [(''a.js'',
                \<lparr>fd_filename = ''a.js'', covered = 1, partial = 0, uncovered = 0, dead = 0,
                  fd_lines =
                    [(0, \<lparr>l_coverage = Some ''full'', l_counts = [Num 3],
                            l_startFunc = True, l_endFunc = True\<rparr>),
                     (1, \<lparr>l_coverage = Some ''full'', l_counts = [Num 3],
                            l_startFunc = True, l_endFunc = True\<rparr>)]\<rparr>)]\<rparr>,
           [onLineUpdate ''a.js'' 2
              \<lparr>l_coverage = Some ''full'', l_counts = [Num 3],
                l_startFunc = True, l_endFunc = True\<rparr>],
           Some TypeError))"
  by code_simp

text \<open>The same at the level of the loop: whatever the snapshots, an index that the stored
  snapshot does not have ends the loop with the adoption, the event and the error.\<close>

lemma reconcile_lines_adopts_and_raises:
  assumes "map_of new i = Some newline" "map_of old i = None"
  shows "reconcile_lines fname new (i # rest) old evs
           = (AList.update i newline old, evs @ [onLineUpdate fname (i + 1) newline],
              Some TypeError)"
  using assms by simp


subsection \<open>Signatures\<close>

lemma digit_char_not_lf: "d < 10 \<Longrightarrow> digit_char d \<noteq> CHR 0x0A"
proof -
  assume "d < 10"
  then have "d \<in> {0, 1, 2, 3, 4, 5, 6, 7, 8, 9}" by auto
  then show ?thesis by (auto simp: digit_char_def)
qed

lemma string_of_nat_lf: "CHR 0x0A \<notin> set (string_of_nat n)"
proof (induction n rule: string_of_nat.induct)
  case (1 n)
  show ?case
  proof (cases "n < 10")
    case True
    then show ?thesis using digit_char_not_lf[of n] by (simp add: string_of_nat.simps[of n])
  next
    case False
    then show ?thesis using 1 digit_char_not_lf[of "n mod 10"]
      by (simp add: string_of_nat.simps[of n])
  qed
qed

lemma num_opt_lf: "CHR 0x0A \<notin> set (num_opt v)"
  by (cases v) (simp_all add: num_opt_def string_of_nat_lf)

lemma opcode_string_lf:
  "CHR 0x0A \<notin> set (assembly x) \<Longrightarrow> CHR 0x0A \<notin> set (opcode_string x)"
  by (simp add: opcode_string_def string_of_nat_lf)

lemma opcode_string_nonempty: "opcode_string x \<noteq> []"
  by (simp add: opcode_string_def)

lemma split_on_join:
  "xs \<noteq> [] \<Longrightarrow> \<forall>x \<in> set xs. sep \<notin> set x \<Longrightarrow> split_on sep (join [sep] xs) = xs"
proof (induction xs)
  case Nil
  then show ?case by simp
next
  case (Cons x xs)
  show ?case
  proof (cases xs)
    case Nil
    with Cons.prems show ?thesis by (simp add: split_on_no_sep)
  next
    case (Cons y ys)
    with Cons.IH Cons.prems have "split_on sep (join [sep] (y # ys)) = y # ys" by simp
    moreover have "sep \<notin> set x" using Cons.prems by simp
    ultimately show ?thesis
      using Cons split_on_append_sep[of sep x "join [sep] (y # ys)"] by simp
  qed
qed

lemma toString_lines:
  assumes "lf_free s"
  shows "split_on (CHR 0x0A) (toString s)
           = (str_opt (name s) @ '':'' @ num_opt (entrypoint s))
               # (if opcodes s = [] then [[]] else map opcode_string (opcodes s))"
proof -
  let ?h = "str_opt (name s) @ '':'' @ num_opt (entrypoint s)"
  let ?strs = "map opcode_string (opcodes s)"
  have h: "CHR 0x0A \<notin> set ?h" using assms by (simp add: lf_free_def num_opt_lf)
  have t: "toString s = ?h @ CHR 0x0A # join [CHR 0x0A] ?strs" by (simp add: toString_def)
  have "split_on (CHR 0x0A) (join [CHR 0x0A] ?strs)
          = (if opcodes s = [] then [[]] else ?strs)"
  proof (cases "opcodes s = []")
    case True
    then show ?thesis by simp
  next
    case False
    have "\<forall>x \<in> set ?strs. CHR 0x0A \<notin> set x"
      using assms by (auto simp: lf_free_def opcode_string_lf)
    with False show ?thesis using split_on_join[of ?strs "CHR 0x0A"] by simp
  qed
  then show ?thesis unfolding t using split_on_append_sep[OF h] by simp
qed

lemma toString_length:
  assumes "lf_free a" "lf_free b" "toString a = toString b"
  shows "length (opcodes a) = length (opcodes b)"
proof -
  let ?r = "\<lambda>s. (if opcodes s = [] then [[]] else map opcode_string (opcodes s))"
  have "split_on (CHR 0x0A) (toString a) = split_on (CHR 0x0A) (toString b)"
    using assms(3) by simp
  then have e: "?r a = ?r b" using toString_lines[OF assms(1)] toString_lines[OF assms(2)] by simp
  have ne: "opcodes s \<noteq> [] \<Longrightarrow> [] \<notin> set (map opcode_string (opcodes s))" for s
    using opcode_string_nonempty by (metis ex_map_conv)
  show ?thesis
  proof (cases "opcodes a = []")
    case True
    show ?thesis
    proof (cases "opcodes b = []")
      case True
      with \<open>opcodes a = []\<close> show ?thesis by simp
    next
      case False
      with True e have "[[]] = map opcode_string (opcodes b)" by simp
      then have "[] \<in> set (map opcode_string (opcodes b))" by (metis list.set_intros(1))
      with ne[OF False] show ?thesis by simp
    qed
  next
    case False
    show ?thesis
    proof (cases "opcodes b = []")
      case True
      with False e have "map opcode_string (opcodes a) = [[]]" by simp
      then have "[] \<in> set (map opcode_string (opcodes a))" by (metis list.set_intros(1))
      with ne[OF False] show ?thesis by simp
    next
      case b: False
      with False e have "map opcode_string (opcodes a) = map opcode_string (opcodes b)" by simp
      then show ?thesis by (rule map_eq_imp_length_eq)
    qed
  qed
qed

lemma toString_code_of: "toString (code_of s) = toString s"
proof -
  have "opcode_string \<circ> unflag = opcode_string" by (rule ext) (simp add: opcode_string_def)
  then show ?thesis by (simp add: toString_def)
qed

lemma lf_free_code_of: "lf_free (code_of s) = lf_free s"
  by (simp add: lf_free_def)

subsection \<open>Adding counts\<close>

lemma addCounts_loop_le:
  "length xs \<le> length ys \<Longrightarrow> addCounts_loop xs ys = Inr (map2 add_count xs ys)"
proof (induction xs ys rule: addCounts_loop.induct)
  case (1 that_ops)
  then show ?case by simp
next
  case (2 a this_ops)
  then show ?case by simp
next
  case (3 a this_ops b that_ops)
  then show ?case by (simp add: add_count_def)
qed

lemma map2_add_count_sel:
  "length xs = length ys \<Longrightarrow> map opcode_string (map2 add_count xs ys) = map opcode_string xs"
  "length xs = length ys \<Longrightarrow> map assembly (map2 add_count xs ys) = map assembly xs"
proof -
  show "length xs = length ys \<Longrightarrow> map opcode_string (map2 add_count xs ys) = map opcode_string xs"
    by (induction xs ys rule: list_induct2) (simp_all add: add_count_def opcode_string_def)
  show "length xs = length ys \<Longrightarrow> map assembly (map2 add_count xs ys) = map assembly xs"
    by (induction xs ys rule: list_induct2) (simp_all add: add_count_def)
qed

lemma lf_free_assembly:
  "lf_free s = (CHR 0x0A \<notin> set (str_opt (name s))
                \<and> (\<forall>a \<in> set (map assembly (opcodes s)). CHR 0x0A \<notin> set a))"
  by (auto simp: lf_free_def)

lemma merged_signature:
  assumes "length (opcodes a) = length (opcodes b)"
  shows "toString (a\<lparr>opcodes := map2 add_count (opcodes a) (opcodes b)\<rparr>) = toString a"
    and "lf_free (a\<lparr>opcodes := map2 add_count (opcodes a) (opcodes b)\<rparr>) = lf_free a"
proof -
  show "toString (a\<lparr>opcodes := map2 add_count (opcodes a) (opcodes b)\<rparr>) = toString a"
    using map2_add_count_sel(1)[OF assms] by (simp add: toString_def)
  show "lf_free (a\<lparr>opcodes := map2 add_count (opcodes a) (opcodes b)\<rparr>) = lf_free a"
    unfolding lf_free_assembly using map2_add_count_sel(2)[OF assms] by simp
qed


subsection \<open>Scripts built from lines without a line feed\<close>

lemma SCRIPT_START_lf:
  assumes "SCRIPT_START l = Some (file, ln)" "CHR 0x0A \<notin> set l"
  shows "CHR 0x0A \<notin> set file"
proof -
  let ?body = "take (length l - 15) (drop 11 l)"
  let ?digits = "rev (takeWhile is_digit (rev ?body))"
  from assms(1) have "file = butlast (take (length ?body - length ?digits) ?body)"
    by (simp add: SCRIPT_START_def Let_def split: if_splits)
  then have "set file \<subseteq> set l"
    by (auto dest!: in_set_butlastD in_set_takeD in_set_dropD)
  with assms(2) show ?thesis by auto
qed

lemma SCRIPT_DATA_lf:
  assumes "SCRIPT_DATA l = Some (m1, m2, m3, m4)"
  shows "CHR 0x0A \<notin> set m4"
proof -
  from assms have "\<not> list_ex is_line_terminator m4"
    by (simp add: SCRIPT_DATA_def Let_def split: if_splits list.splits)
  then show ?thesis by (auto simp: list_ex_iff is_line_terminator_def)
qed

lemma new_opcode_lf:
  "CHR 0x0A \<notin> set m4 \<Longrightarrow> CHR 0x0A \<notin> set (assembly (new_opcode (m1, m2, m3, m4)))"
  by (simp add: new_opcode_def Let_def)

lemma Script_line_lf_free:
  assumes "lf_free s" "CHR 0x0A \<notin> set l" "Script_line s l = Inr s'"
  shows "lf_free s'"
proof (cases "SCRIPT_START l")
  case (Some m)
  obtain fname ln where m: "m = (fname, ln)" by (cases m)
  from assms(3) Some m
  have s': "s' = s\<lparr>filename := Some fname, startline := Some (nat_of_digits ln),
                    name := Some (fname @ '':'' @ string_of_nat (nat_of_digits ln))\<rparr>"
    by (simp add: Script_line_def)
  show ?thesis
    using assms(1) SCRIPT_START_lf[OF Some[unfolded m] assms(2)]
    unfolding s' by (simp add: lf_free_def str_opt_def string_of_nat_lf)
next
  case None
  show ?thesis
  proof (cases "SCRIPT_END l \<or> l = ''main:''")
    case True
    with assms(3) None have "s' = s \<or> s' = s\<lparr>entrypoint := Some (length (opcodes s))\<rparr>"
      by (auto simp: Script_line_def split: if_splits)
    with assms(1) show ?thesis by (auto simp: lf_free_def)
  next
    case False
    show ?thesis
    proof (cases "SCRIPT_DATA l")
      case (Some m)
      obtain m1 m2 m3 m4 where m: "m = (m1, m2, m3, m4)" by (cases m)
      from assms(3) None False Some
      have s': "s' = s\<lparr>pcToOpcodeIndex :=
                         AList.update (string_of_nat (pc (new_opcode m))) (length (opcodes s))
                           (pcToOpcodeIndex s),
                       opcodes := opcodes s @ [new_opcode m]\<rparr>"
        by (simp add: Script_line_def Let_def)
      show ?thesis
        using assms(1) new_opcode_lf[OF SCRIPT_DATA_lf[OF Some[unfolded m]], of m1 m2 m3]
        unfolding s' m by (simp add: lf_free_def)
    next
      case d: None
      show ?thesis
      proof (cases "nth_opt l 0 = Some (CHR 0x09)")
        case True
        from assms(3) None False d True
        have ne: "opcodes s \<noteq> []"
          and s': "s' = s\<lparr>opcodes := butlast (opcodes s)
                              @ [(last (opcodes s))\<lparr>assembly := assembly (last (opcodes s)) @ l\<rparr>]\<rparr>"
          by (auto simp: Script_line_def append_assembly_def split: if_splits)
        have "last (opcodes s) \<in> set (opcodes s)" using ne by simp
        with assms(1) have "CHR 0x0A \<notin> set (assembly (last (opcodes s)))"
          by (simp add: lf_free_def)
        with assms(1,2) show ?thesis
          unfolding s' by (auto simp: lf_free_def dest: in_set_butlastD)
      next
        case f: False
        with assms(3) None False d have "s' = s" by (simp add: Script_line_def)
        with assms(1) show ?thesis by simp
      qed
    qed
  qed
qed

lemma Script_lines_lf_free:
  "lf_free s \<Longrightarrow> \<forall>l \<in> set ls. CHR 0x0A \<notin> set l \<Longrightarrow> Script_lines s ls = Inr s' \<Longrightarrow> lf_free s'"
proof (induction ls arbitrary: s)
  case Nil
  then show ?case by simp
next
  case (Cons l ls)
  from Cons.prems(3) obtain s1 where s1: "Script_line s l = Inr s1" "Script_lines s1 ls = Inr s'"
    by (auto split: sum.splits)
  have "lf_free s1" using Script_line_lf_free[OF Cons.prems(1) _ s1(1)] Cons.prems(2) by simp
  then show ?case using Cons.IH[OF _ _ s1(2)] Cons.prems(2) by simp
qed

lemma Script_lf_free:
  "\<forall>l \<in> set ls. CHR 0x0A \<notin> set l \<Longrightarrow> Script ls = Inr s \<Longrightarrow> lf_free s"
  using Script_lines_lf_free[of new_script ls s]
  by (simp add: Script_def lf_free_def new_script_def str_opt_def)

subsection \<open>The signature map of the parser\<close>

lemma parser_ok_new: "parser_ok new_parser"
  by (simp add: parser_ok_def new_parser_def)

text \<open>A record block whose signature is registered: the registered script has as many
  instructions, and the counts are added.\<close>

lemma register_script_known:
  assumes ok: "parser_ok p"
    and lf: "\<forall>l \<in> set ls. CHR 0x0A \<notin> set l"
    and sc: "Script ls = Inr script"
    and k: "map_of (scriptMap p) (toString script) = Some k"
  shows "k < length (scripts p)"
    and "toString (scripts p ! k) = toString script"
    and "length (opcodes (scripts p ! k)) = length (opcodes script)"
    and "register_script p ls =
           Inr (p\<lparr>scripts := (scripts p)
                    [k := (scripts p ! k)
                       \<lparr>opcodes := map2 add_count (opcodes (scripts p ! k)) (opcodes script)\<rparr>]\<rparr>)"
proof -
  from ok k show lt: "k < length (scripts p)"
    and sig: "toString (scripts p ! k) = toString script"
    by (simp_all add: parser_ok_def)
  from ok lt have "lf_free (scripts p ! k)" by (simp add: parser_ok_def)
  then show len: "length (opcodes (scripts p ! k)) = length (opcodes script)"
    using toString_length[OF _ Script_lf_free[OF lf sc] sig] by simp
  then have "addCounts (scripts p ! k) script
      = Inr ((scripts p ! k)
               \<lparr>opcodes := map2 add_count (opcodes (scripts p ! k)) (opcodes script)\<rparr>)"
    by (simp add: addCounts_def addCounts_loop_le)
  then show "register_script p ls =
           Inr (p\<lparr>scripts := (scripts p)
                    [k := (scripts p ! k)
                       \<lparr>opcodes := map2 add_count (opcodes (scripts p ! k)) (opcodes script)\<rparr>]\<rparr>)"
    using sc k by (simp add: register_script_def)
qed

lemma register_script_ok:
  assumes ok: "parser_ok p"
    and lf: "\<forall>l \<in> set ls. CHR 0x0A \<notin> set l"
    and r: "register_script p ls = Inr p'"
  shows "parser_ok (p'\<lparr>scriptlines := [], inscript := False\<rparr>)"
proof -
  from r obtain script where sc: "Script ls = Inr script"
    by (auto simp: register_script_def split: sum.splits)
  note free = Script_lf_free[OF lf sc]
  show ?thesis
  proof (cases "map_of (scriptMap p) (toString script)")
    case (Some k)
    note known = register_script_known[OF ok lf sc Some]
    let ?m = "(scripts p ! k)
                \<lparr>opcodes := map2 add_count (opcodes (scripts p ! k)) (opcodes script)\<rparr>"
    from r known(4) have p': "p' = p\<lparr>scripts := (scripts p)[k := ?m]\<rparr>" by simp
    have old: "lf_free (scripts p ! k)" using ok known(1) by (simp add: parser_ok_def)
    have m1: "toString ?m = toString (scripts p ! k)" by (rule merged_signature(1)[OF known(3)])
    have m2: "lf_free ?m" using merged_signature(2)[OF known(3)] old by simp
    have a: "j < length (scripts p) \<and> toString ((scripts p)[k := ?m] ! j) = sig"
      if "map_of (scriptMap p) sig = Some j" for sig j
    proof -
      from ok that have j: "j < length (scripts p)" "toString (scripts p ! j) = sig"
        by (simp_all add: parser_ok_def)
      then show ?thesis using m1 by (cases "j = k") (simp_all add: nth_list_update)
    qed
    have b: "lf_free s" if "s \<in> set ((scripts p)[k := ?m])" for s
    proof -
      from that have "s = ?m \<or> s \<in> set (scripts p)"
        using set_update_subset_insert[of "scripts p" k ?m] by auto
      with m2 ok show ?thesis by (auto simp: parser_ok_def)
    qed
    show ?thesis unfolding p' using a b by (simp add: parser_ok_def)
  next
    case None
    from r sc None obtain script' where
      c: "checkReachability (Suc (length (opcodes script))) script = Some (Inr script')"
      and p': "p' = p\<lparr>scripts := scripts p @ [script'],
                      scriptMap := AList.update (toString script) (length (scripts p))
                                     (scriptMap p)\<rparr>"
      by (auto simp: register_script_def split: option.splits sum.splits)
    from c have "frame script script'"
      using reachable_frame(1) by (simp add: checkReachability_def)
    then have co: "code_of script' = code_of script" by (simp add: frame_def)
    have t: "toString script' = toString script"
      using toString_code_of[of script'] toString_code_of[of script] co by simp
    have f: "lf_free script'"
      using lf_free_code_of[of script'] lf_free_code_of[of script] co free by simp
    have a: "j < length (scripts p @ [script']) \<and> toString ((scripts p @ [script']) ! j) = sig"
      if "map_of (AList.update (toString script) (length (scripts p)) (scriptMap p)) sig = Some j"
      for sig j
    proof (cases "sig = toString script")
      case True
      with that have "j = length (scripts p)" by (simp add: update_conv')
      with True t show ?thesis by simp
    next
      case False
      with that have "map_of (scriptMap p) sig = Some j" by (simp add: update_conv')
      with ok have "j < length (scripts p)" "toString (scripts p ! j) = sig"
        by (simp_all add: parser_ok_def)
      then show ?thesis by (simp add: nth_append)
    qed
    have b: "lf_free s" if "s \<in> set (scripts p @ [script'])" for s
      using that f ok by (auto simp: parser_ok_def)
    show ?thesis unfolding p' using a b by (simp add: parser_ok_def)
  qed
qed

lemma processLine_ok:
  assumes ok: "parser_ok p" and lf: "CHR 0x0A \<notin> set l" and r: "processLine p l = Inr p'"
  shows "parser_ok p'"
proof -
  have lines: "\<forall>x \<in> set (scriptlines p @ [l]). CHR 0x0A \<notin> set x"
    using ok lf by (simp add: parser_ok_def)
  consider (reg) "inscript p" "SCRIPT_END l" "\<not> skipped_header (hd (scriptlines p @ [l]))"
    | (skip) "p' = p\<lparr>scriptlines := [], inscript := False\<rparr>"
    | (more) "p' = p\<lparr>scriptlines := scriptlines p @ [l]\<rparr>"
    | (start) "p' = p\<lparr>inscript := True, scriptlines := [l]\<rparr>"
    | (same) "p' = p"
    using r by (auto simp: processLine_def split: if_splits)
  then show ?thesis
  proof cases
    case reg
    with r obtain p1 where p1: "register_script p (scriptlines p @ [l]) = Inr p1"
      and p': "p' = p1\<lparr>scriptlines := [], inscript := False\<rparr>"
      by (auto simp: processLine_def split: sum.splits)
    show ?thesis unfolding p' by (rule register_script_ok[OF ok lines p1])
  next
    case skip
    with ok show ?thesis by (simp add: parser_ok_def)
  next
    case more
    with ok lf show ?thesis by (simp add: parser_ok_def)
  next
    case start
    with ok lf show ?thesis by (simp add: parser_ok_def)
  next
    case same
    with ok show ?thesis by simp
  qed
qed

lemma processLines_ok:
  "parser_ok p \<Longrightarrow> \<forall>l \<in> set ls. CHR 0x0A \<notin> set l \<Longrightarrow> processLines p ls = Inr p'
     \<Longrightarrow> parser_ok p'"
proof (induction ls arbitrary: p)
  case Nil
  then show ?case by simp
next
  case (Cons l ls)
  from Cons.prems(3) obtain p1 where p1: "processLine p l = Inr p1" "processLines p1 ls = Inr p'"
    by (auto split: sum.splits)
  have "parser_ok p1" using processLine_ok[OF Cons.prems(1) _ p1(1)] Cons.prems(2) by simp
  then show ?case using Cons.IH[OF _ _ p1(2)] Cons.prems(2) by simp
qed

lemma split_on_lf: "\<forall>l \<in> set (split_on sep s). sep \<notin> set l"
  by (induction s) (auto split: list.splits)

text \<open>
  Claim C5. In every parse session (the parser has processed the lines \<open>ls\<close> of a text,
  none of which holds a line feed), when the record block that the end marker \<open>dataline\<close>
  completes parses to a script whose signature is registered at position \<open>k\<close>: the
  registered script has that signature and as many instructions, the count of each of its
  instructions becomes the sum of the two counts, its flags stay as they are (the analysis
  is not run), and the list of scripts and the signature map get no new entry.
\<close>

theorem duplicate_script_merged:
  assumes "processLines new_parser ls = Inr p"
    and "\<forall>l \<in> set (ls @ [dataline]). CHR 0x0A \<notin> set l"
    and "inscript p" and "SCRIPT_END dataline"
    and "\<not> skipped_header (hd (scriptlines p @ [dataline]))"
    and "Script (scriptlines p @ [dataline]) = Inr script"
    and "map_of (scriptMap p) (toString script) = Some k"
  shows "k < length (scripts p) \<and> toString (scripts p ! k) = toString script
       \<and> length (opcodes (scripts p ! k)) = length (opcodes script)
       \<and> processLine p dataline =
           Inr (p\<lparr>scripts := (scripts p)
                     [k := (scripts p ! k)
                        \<lparr>opcodes := map2 add_count (opcodes (scripts p ! k)) (opcodes script)\<rparr>],
                   scriptlines := [], inscript := False\<rparr>)"
proof -
  have ok: "parser_ok p" using processLines_ok[OF parser_ok_new _ assms(1)] assms(2) by simp
  then have lines: "\<forall>x \<in> set (scriptlines p @ [dataline]). CHR 0x0A \<notin> set x"
    using assms(2) by (simp add: parser_ok_def)
  note known = register_script_known[OF ok lines assms(6,7)]
  have "processLine p dataline =
           Inr (p\<lparr>scripts := (scripts p)
                     [k := (scripts p ! k)
                        \<lparr>opcodes := map2 add_count (opcodes (scripts p ! k)) (opcodes script)\<rparr>],
                   scriptlines := [], inscript := False\<rparr>)"
    using assms(3,4,5) known(4) by (simp add: processLine_def)
  with known(1,2,3) show ?thesis by simp
qed

theorem duplicate_script_merged_witness:
  "processLines new_parser trace_twice_lines = Inr trace_twice_parser
   \<and> processLine trace_twice_parser ''--- END SCRIPT ---'' =
       Inr \<lparr>inscript = False, scriptlines = [],
            scripts =
              [\<lparr>opcodes =
                  [\<lparr>pc = 0, count = Num 5, srcline = 1, assembly = ''nop'',
                     op_reachable = True, fallsthrough = True, op_entrypoint = True\<rparr>,
                   \<lparr>pc = 1, count = Num 5, srcline = 1, assembly = ''stop'',
                     op_reachable = True, fallsthrough = False, op_entrypoint = False\<rparr>],
                pcToOpcodeIndex = [(''0'', 0), (''1'', 1)],
                filename = Some ''a.js'', startline = Some 1,
                name = Some ''a.js:1'', entrypoint = None\<rparr>],
            scriptMap = scriptMap trace_twice_parser\<rparr>"
proof -
  have h1: "processLines new_parser trace_twice_lines = Inr trace_twice_parser" by code_simp
  have h2: "list_all (\<lambda>l. CHR 0x0A \<notin> set l) (trace_twice_lines @ [''--- END SCRIPT ---''])"
    by code_simp
  have h3: "inscript trace_twice_parser" "SCRIPT_END ''--- END SCRIPT ---''"
    "\<not> skipped_header (hd (scriptlines trace_twice_parser @ [''--- END SCRIPT ---'']))"
    by code_simp+
  have h4: "Script (scriptlines trace_twice_parser @ [''--- END SCRIPT ---''])
              = Inr trace_twice_script" by code_simp
  have h5: "map_of (scriptMap trace_twice_parser) (toString trace_twice_script) = Some 0"
    by code_simp
  have e: "trace_twice_parser
      \<lparr>scripts := (scripts trace_twice_parser)
         [0 := (scripts trace_twice_parser ! 0)
            \<lparr>opcodes := map2 add_count (opcodes (scripts trace_twice_parser ! 0))
                          (opcodes trace_twice_script)\<rparr>],
       scriptlines := [], inscript := False\<rparr>
     = \<lparr>inscript = False, scriptlines = [],
            scripts =
              [\<lparr>opcodes =
                  [\<lparr>pc = 0, count = Num 5, srcline = 1, assembly = ''nop'',
                     op_reachable = True, fallsthrough = True, op_entrypoint = True\<rparr>,
                   \<lparr>pc = 1, count = Num 5, srcline = 1, assembly = ''stop'',
                     op_reachable = True, fallsthrough = False, op_entrypoint = False\<rparr>],
                pcToOpcodeIndex = [(''0'', 0), (''1'', 1)],
                filename = Some ''a.js'', startline = Some 1,
                name = Some ''a.js:1'', entrypoint = None\<rparr>],
            scriptMap = scriptMap trace_twice_parser\<rparr>"
    by (simp add: trace_twice_parser_def trace_twice_script_def add_count_def)
  from duplicate_script_merged[OF h1 h2[unfolded list_all_iff] h3 h4 h5] h1 show ?thesis
    unfolding e by simp
qed

text \<open>The example of the claim from the text of the trace: one script, counts 5 and 5.\<close>

lemma trace_twice_one_script:
  "map_sum id (map (map count \<circ> opcodes)) (parse_scripts trace_twice) = Inr [[Num 5, Num 5]]"
  by code_simp


subsection \<open>Counts and flags of the instructions\<close>

lemma count_ok_parseInt: "count_ok (parseInt v)"
  by (simp add: parseInt_def count_ok_def Let_def split: option.splits)

lemma count_ok_add: "count_ok a \<Longrightarrow> count_ok b \<Longrightarrow> count_ok (js_add a b)"
  by (cases a; cases b) (simp_all add: count_ok_def)

lemma count_ok_not_dead: "count_ok c \<Longrightarrow> \<not> strict_eq c (Num (- 1))"
  by (cases c) (simp_all add: count_ok_def)

lemma new_opcode_fresh: "opcode_fresh (new_opcode m)"
  by (cases m) (simp add: new_opcode_def opcode_fresh_def Let_def count_ok_add count_ok_parseInt)

lemma Script_line_fresh:
  assumes "\<forall>x \<in> set (opcodes s). opcode_fresh x" "Script_line s l = Inr s'"
  shows "\<forall>x \<in> set (opcodes s'). opcode_fresh x"
proof (cases "SCRIPT_START l")
  case (Some m)
  with assms(2) have "opcodes s' = opcodes s"
    by (cases m) (auto simp: Script_line_def)
  with assms(1) show ?thesis by simp
next
  case None
  show ?thesis
  proof (cases "SCRIPT_END l \<or> l = ''main:''")
    case True
    with assms(2) None have "opcodes s' = opcodes s"
      by (auto simp: Script_line_def split: if_splits)
    with assms(1) show ?thesis by simp
  next
    case False
    show ?thesis
    proof (cases "SCRIPT_DATA l")
      case (Some m)
      with assms(2) None False have "opcodes s' = opcodes s @ [new_opcode m]"
        by (auto simp: Script_line_def Let_def)
      with assms(1) new_opcode_fresh[of m] show ?thesis by simp
    next
      case d: None
      show ?thesis
      proof (cases "nth_opt l 0 = Some (CHR 0x09)")
        case True
        from assms(2) None False d True
        have ne: "opcodes s \<noteq> []"
          and s': "opcodes s' = butlast (opcodes s)
                     @ [(last (opcodes s))\<lparr>assembly := assembly (last (opcodes s)) @ l\<rparr>]"
          by (auto simp: Script_line_def append_assembly_def split: if_splits)
        have "opcode_fresh (last (opcodes s))" using ne assms(1) by simp
        then have "opcode_fresh ((last (opcodes s))\<lparr>assembly := assembly (last (opcodes s)) @ l\<rparr>)"
          by (simp add: opcode_fresh_def)
        with assms(1) show ?thesis unfolding s' by (auto dest: in_set_butlastD)
      next
        case f: False
        with assms(2) None False d have "s' = s" by (simp add: Script_line_def)
        with assms(1) show ?thesis by simp
      qed
    qed
  qed
qed

lemma Script_lines_fresh:
  "\<forall>x \<in> set (opcodes s). opcode_fresh x \<Longrightarrow> Script_lines s ls = Inr s'
     \<Longrightarrow> \<forall>x \<in> set (opcodes s'). opcode_fresh x"
proof (induction ls arbitrary: s)
  case Nil
  then show ?case by simp
next
  case (Cons l ls)
  from Cons.prems(2) obtain s1 where s1: "Script_line s l = Inr s1" "Script_lines s1 ls = Inr s'"
    by (auto split: sum.splits)
  from Cons.IH[OF Script_line_fresh[OF Cons.prems(1) s1(1)] s1(2)] show ?case .
qed

lemma Script_fresh: "Script ls = Inr s \<Longrightarrow> \<forall>x \<in> set (opcodes s). opcode_fresh x"
  using Script_lines_fresh[of new_script ls s] by (simp add: Script_def new_script_def)

subsection \<open>The flags that the analysis sets\<close>

lemma set_update_flags:
  assumes "\<forall>x \<in> set xs. P x" "i < length xs \<Longrightarrow> P y"
  shows "\<forall>x \<in> set (xs[i := y]). P x"
proof (cases "i < length xs")
  case True
  with assms show ?thesis using set_update_subset_insert[of xs i y] by auto
next
  case False
  with assms(1) show ?thesis by (simp add: list_update_beyond)
qed

lemma flags_inv_set:
  "flags_inv s \<Longrightarrow> flags_inv (set_entrypoint s i)"
  "flags_inv s \<Longrightarrow> flags_inv (set_reachable s i)"
  "flags_inv s \<Longrightarrow> flags_inv (set_fallsthrough (set_reachable s i) i)"
proof -
  assume f: "flags_inv s"
  let ?P = "\<lambda>x. fallsthrough x \<longrightarrow> op_reachable x"
  have a: "\<forall>x \<in> set (opcodes s). ?P x" using f by (simp add: flags_inv_def)
  have n: "i < length (opcodes s) \<Longrightarrow> ?P (opcodes s ! i)" using a by simp
  have e: "i < length (opcodes s) \<Longrightarrow> ?P ((opcodes s ! i)\<lparr>op_entrypoint := True\<rparr>)"
    using n by simp
  have r: "i < length (opcodes s) \<Longrightarrow> ?P ((opcodes s ! i)\<lparr>op_reachable := True\<rparr>)"
    by simp
  show "flags_inv (set_entrypoint s i)"
    using set_update_flags[of "opcodes s" ?P i, OF a e]
    by (simp add: flags_inv_def set_entrypoint_def)
  have b: "\<forall>x \<in> set ((opcodes s)[i := (opcodes s ! i)\<lparr>op_reachable := True\<rparr>]). ?P x"
    using set_update_flags[of "opcodes s" ?P i, OF a r] .
  show "flags_inv (set_reachable s i)"
    using b by (simp add: flags_inv_def set_reachable_def)
  have "\<forall>x \<in> set (((opcodes s)[i := (opcodes s ! i)\<lparr>op_reachable := True\<rparr>])
            [i := ((opcodes s)[i := (opcodes s ! i)\<lparr>op_reachable := True\<rparr>] ! i)
                    \<lparr>fallsthrough := True\<rparr>]). ?P x"
    by (rule set_update_flags[OF b]) simp
  then show "flags_inv (set_fallsthrough (set_reachable s i) i)"
    by (simp add: flags_inv_def set_reachable_def set_fallsthrough_def)
qed

lemma walk_flags:
  "walk s i = Inr r \<Longrightarrow> flags_inv s \<Longrightarrow>
     flags_inv (case r of Returned s' \<Rightarrow> s' | Broke s' j op \<Rightarrow> s')"
proof (induction s i arbitrary: r rule: walk.induct)
  case (1 s i)
  show ?case
  proof (cases "i < length (opcodes s) \<and> \<not> op_reachable (opcodes s ! i)")
    case False
    with "1.prems" have "r = Returned s" by (auto simp: walk.simps[of s i] split: if_splits)
    with "1.prems" show ?thesis by simp
  next
    case True
    then have lt: "i < length (opcodes s)" and nr: "\<not> op_reachable (opcodes s ! i)" by simp_all
    from lt nr "1.prems" obtain op where
      fw: "first_word (assembly (opcodes s ! i)) = Some op"
      by (auto simp: walk.simps[of s i] split: option.splits)
    show ?thesis
    proof (cases "linear op")
      case False
      with lt nr fw "1.prems" have "r = Broke (set_reachable s i) i op"
        by (auto simp: walk.simps[of s i])
      with flags_inv_set(2)[OF "1.prems"(2)] show ?thesis by simp
    next
      case lin: True
      with lt nr fw "1.prems"
      have rec: "walk (set_fallsthrough (set_reachable s i) i) (i + 1) = Inr r"
        by (auto simp: walk.simps[of s i])
      from "1.IH"[OF lt nr fw _ rec flags_inv_set(3)[OF "1.prems"(2)]] lin show ?thesis by simp
    qed
  qed
qed


text \<open>\<^verbatim>\<open>fallsthrough\<close> is only set on instructions that are marked.\<close>

lemma reachable_flags_inv:
  assumes "reachable n s idx = Some (Inr s')" "flags_inv s"
  shows "flags_inv s'"
proof -
  let ?R = "\<lambda>s s'. flags_inv s \<longrightarrow> flags_inv s'"
  have "?R s s'"
  proof (rule reachable_preserves(1)[where R = ?R, OF _ _ _ _ assms(1)])
    show "\<And>s i. ?R s (set_entrypoint s i)" by (simp add: flags_inv_set(1))
    show "case r of Returned s' \<Rightarrow> ?R s s' | Broke s' j op \<Rightarrow> ?R s s'"
      if "walk s i = Inr r" for s i r
      using walk_flags[OF that] by (cases r) simp_all
  qed simp_all
  with assms(2) show ?thesis by simp
qed


subsection \<open>The scripts that the parser registers\<close>

lemma analysed_script_ok:
  assumes sc: "Script b = Inr script"
    and c: "checkReachability (Suc (length (opcodes script))) script = Some (Inr script')"
    and fn: "str_opt (filename script) \<notin> set object_prototype_keys"
  shows "script_ok script'"
proof -
  have r: "reachable (Suc (length (opcodes script))) script (Some 0) = Some (Inr script')"
    using c by (simp add: checkReachability_def)
  have f: "frame script script'" using reachable_frame(1)[OF r] .
  then have co: "code_of script' = code_of script" by (simp add: frame_def)
  have len: "length (opcodes script') = length (opcodes script)" using f by (rule frame_length)
  from reachable_start[OF r] have "0 < length (opcodes script)" by simp
  with len have ne: "opcodes script' \<noteq> []" by auto
  have "filename (code_of script') = filename (code_of script)" using co by simp
  then have fn': "str_opt (filename script') \<notin> set object_prototype_keys" using fn by simp
  note fresh = Script_fresh[OF sc]
  have "flags_inv script" using fresh by (simp add: flags_inv_def opcode_fresh_def)
  then have fl: "flags_inv script'" using reachable_flags_inv[OF r] by simp
  have "opcode_ok x" if x: "x \<in> set (opcodes script')" for x
  proof -
    from x obtain i where i: "i < length (opcodes script')" "x = opcodes script' ! i"
      by (auto simp: in_set_conv_nth)
    then have i': "i < length (opcodes script)" using len by simp
    have "count x = count (opcodes script ! i)" using code_of_eqD(5)[OF co i'] i(2) by simp
    moreover have "opcode_fresh (opcodes script ! i)" using fresh i' by simp
    ultimately have "count_ok (count x)" by (simp add: opcode_fresh_def)
    moreover have "fallsthrough x \<longrightarrow> op_reachable x" using fl x by (simp add: flags_inv_def)
    ultimately show ?thesis by (simp add: opcode_ok_def)
  qed
  with ne fn' show ?thesis by (simp add: script_ok_def)
qed

lemma merged_script_ok:
  assumes a: "script_ok a" and b: "\<forall>x \<in> set (opcodes b). opcode_fresh x"
    and len: "length (opcodes a) = length (opcodes b)"
  shows "script_ok (a\<lparr>opcodes := map2 add_count (opcodes a) (opcodes b)\<rparr>)"
proof -
  have ne: "map2 add_count (opcodes a) (opcodes b) \<noteq> []"
    using a len by (cases "opcodes a"; cases "opcodes b") (simp_all add: script_ok_def)
  have "opcode_ok z" if z: "z \<in> set (map2 add_count (opcodes a) (opcodes b))" for z
  proof -
    from z obtain x y where xy: "(x, y) \<in> set (zip (opcodes a) (opcodes b))" "z = add_count x y"
      by auto
    from xy(1) have "x \<in> set (opcodes a)" "y \<in> set (opcodes b)"
      by (auto dest: set_zip_leftD set_zip_rightD)
    with a b have "opcode_ok x" "count_ok (count y)"
      by (simp_all add: script_ok_def opcode_fresh_def)
    with xy(2) show ?thesis by (simp add: opcode_ok_def add_count_def count_ok_add)
  qed
  with ne a show ?thesis by (simp add: script_ok_def)
qed

lemma error_cases: "(e::error) = TypeError"
  by (cases e)

lemma register_block:
  assumes inv: "parser_inv p" and lf: "\<forall>l \<in> set b. CHR 0x0A \<notin> set l" and ok: "block_ok b"
  shows "\<exists>p1. register_script p b = Inr p1
           \<and> parser_inv (p1\<lparr>scriptlines := [], inscript := False\<rparr>)"
proof -
  from inv have pok: "parser_ok p" and sok: "\<forall>s \<in> set (scripts p). script_ok s"
    by (simp_all add: parser_inv_def)
  from ok obtain script where sc: "Script b = Inr script"
    and nr: "checkReachability (Suc (length (opcodes script))) script \<noteq> Some (Inl TypeError)"
    and fn: "str_opt (filename script) \<notin> set object_prototype_keys"
    by (auto simp: block_ok_def split: sum.splits)
  show ?thesis
  proof (cases "map_of (scriptMap p) (toString script)")
    case (Some k)
    note known = register_script_known[OF pok lf sc Some]
    let ?m = "(scripts p ! k)
                \<lparr>opcodes := map2 add_count (opcodes (scripts p ! k)) (opcodes script)\<rparr>"
    let ?p1 = "p\<lparr>scripts := (scripts p)[k := ?m]\<rparr>"
    have old: "script_ok (scripts p ! k)" using sok known(1) by simp
    have m: "script_ok ?m" using merged_script_ok[OF old Script_fresh[OF sc] known(3)] .
    have "\<forall>s \<in> set (scripts ?p1). script_ok s"
      using sok m set_update_subset_insert[of "scripts p" k ?m] by auto
    moreover have "parser_ok (?p1\<lparr>scriptlines := [], inscript := False\<rparr>)"
      using register_script_ok[OF pok lf known(4)] .
    ultimately have "parser_inv (?p1\<lparr>scriptlines := [], inscript := False\<rparr>)"
      by (simp add: parser_inv_def)
    with known(4) show ?thesis by blast
  next
    case None
    have "checkReachability (Suc (length (opcodes script))) script \<noteq> None"
      by (rule checkReachability_enough)
    with nr obtain script' where
      c: "checkReachability (Suc (length (opcodes script))) script = Some (Inr script')"
      using error_cases
      by (cases "checkReachability (Suc (length (opcodes script))) script") (auto, metis sum.exhaust_sel sumE)
    let ?p1 = "p\<lparr>scripts := scripts p @ [script'],
                  scriptMap := AList.update (toString script) (length (scripts p)) (scriptMap p)\<rparr>"
    have r: "register_script p b = Inr ?p1" using sc None c by (simp add: register_script_def)
    have "script_ok script'" using analysed_script_ok[OF sc c fn] .
    with sok have "\<forall>s \<in> set (scripts ?p1). script_ok s" by simp
    moreover have "parser_ok (?p1\<lparr>scriptlines := [], inscript := False\<rparr>)"
      using register_script_ok[OF pok lf r] .
    ultimately have "parser_inv (?p1\<lparr>scriptlines := [], inscript := False\<rparr>)"
      by (simp add: parser_inv_def)
    with r show ?thesis by blast
  qed
qed

text \<open>The parser returns on lines whose record blocks are skipped or fit.\<close>

lemma processLines_blocks:
  assumes "parser_inv p" and "\<forall>l \<in> set ls. CHR 0x0A \<notin> set l"
    and "\<forall>b \<in> set (record_blocks (scriptlines p) ls). skipped_header (hd b) \<or> block_ok b"
  shows "\<exists>p'. processLines p ls = Inr p' \<and> parser_inv p'"
  using assms
proof (induction ls arbitrary: p)
  case Nil
  then show ?case by simp
next
  case (Cons l ls)
  note inv = Cons.prems(1)
  from inv have pok: "parser_ok p" and ins: "inscript p \<longleftrightarrow> scriptlines p \<noteq> []"
    and sok: "\<forall>s \<in> set (scripts p). script_ok s"
    by (simp_all add: parser_inv_def)
  have lfl: "CHR 0x0A \<notin> set l" and lfs: "\<forall>x \<in> set ls. CHR 0x0A \<notin> set x"
    using Cons.prems(2) by simp_all
  have lines: "\<forall>x \<in> set (scriptlines p @ [l]). CHR 0x0A \<notin> set x"
    using pok lfl by (simp add: parser_ok_def)
  have step: "\<exists>p1. processLine p l = Inr p1 \<and> parser_inv p1
          \<and> set (record_blocks (scriptlines p1) ls)
              \<subseteq> set (record_blocks (scriptlines p) (l # ls))"
  proof (cases "inscript p")
    case True
    then have cur: "scriptlines p \<noteq> []" using ins by simp
    show ?thesis
    proof (cases "SCRIPT_END l")
      case e: True
      let ?b = "scriptlines p @ [l]"
      have rb: "record_blocks (scriptlines p) (l # ls) = ?b # record_blocks [] ls"
        using cur e by simp
      show ?thesis
      proof (cases "skipped_header (hd ?b)")
        case True
        let ?p1 = "p\<lparr>scriptlines := [], inscript := False\<rparr>"
        have "processLine p l = Inr ?p1" using \<open>inscript p\<close> e True by (simp add: processLine_def)
        moreover have "parser_inv ?p1" using pok sok by (simp add: parser_inv_def parser_ok_def)
        ultimately show ?thesis using rb by auto
      next
        case False
        have "?b \<in> set (record_blocks (scriptlines p) (l # ls))" using rb by simp
        with Cons.prems(3) False have "block_ok ?b" by blast
        from register_block[OF inv lines this] obtain p1 where
          p1: "register_script p ?b = Inr p1"
              "parser_inv (p1\<lparr>scriptlines := [], inscript := False\<rparr>)" by blast
        have "processLine p l = Inr (p1\<lparr>scriptlines := [], inscript := False\<rparr>)"
          using \<open>inscript p\<close> e False p1(1) by (simp add: processLine_def)
        with p1(2) rb show ?thesis by auto
      qed
    next
      case e: False
      let ?p1 = "p\<lparr>scriptlines := scriptlines p @ [l]\<rparr>"
      have "processLine p l = Inr ?p1" using \<open>inscript p\<close> e by (simp add: processLine_def)
      moreover have "parser_inv ?p1"
        using pok sok \<open>inscript p\<close> lfl by (simp add: parser_inv_def parser_ok_def)
      moreover have "record_blocks (scriptlines p) (l # ls) = record_blocks (scriptlines ?p1) ls"
        using cur e by simp
      ultimately show ?thesis by auto
    qed
  next
    case False
    then have cur: "scriptlines p = []" using ins by simp
    show ?thesis
    proof (cases "SCRIPT_START l \<noteq> None")
      case True
      let ?p1 = "p\<lparr>inscript := True, scriptlines := [l]\<rparr>"
      have "processLine p l = Inr ?p1" using False True by (simp add: processLine_def)
      moreover have "parser_inv ?p1"
        using pok sok lfl by (simp add: parser_inv_def parser_ok_def)
      moreover have "record_blocks (scriptlines p) (l # ls) = record_blocks (scriptlines ?p1) ls"
        using cur True by simp
      ultimately show ?thesis by auto
    next
      case n: False
      have "processLine p l = Inr p" using False n by (simp add: processLine_def)
      moreover have "record_blocks (scriptlines p) (l # ls) = record_blocks (scriptlines p) ls"
        using cur n by simp
      ultimately show ?thesis using inv by auto
    qed
  qed
  then obtain p1 where p1: "processLine p l = Inr p1" "parser_inv p1"
    "set (record_blocks (scriptlines p1) ls) \<subseteq> set (record_blocks (scriptlines p) (l # ls))"
    by blast
  have "\<forall>b \<in> set (record_blocks (scriptlines p1) ls). skipped_header (hd b) \<or> block_ok b"
    using Cons.prems(3) p1(3) by blast
  from Cons.IH[OF p1(2) lfs this] p1(1) show ?case by simp
qed


subsection \<open>The lines of the files\<close>

lemma set_update_subset: "set (AList.update k v al) \<subseteq> insert (k, v) (set al)"
  by (induction al) auto

lemma with_line_ok:
  assumes "\<forall>ln \<in> set (map snd (file_lines f)). line_ok ln"
    and "\<And>ln. line_ok ln \<Longrightarrow> line_ok (g ln)"
  shows "\<forall>ln \<in> set (map snd (file_lines (with_line f n g))). line_ok ln"
proof (cases "map_of (file_lines f) n")
  case None
  have "line_ok (new_line n)" by (simp add: line_ok_def new_line_def)
  with assms None show ?thesis by (simp add: with_line_def)
next
  case (Some ln)
  then have "(n, ln) \<in> set (file_lines f)" by (rule map_of_SomeD)
  with assms(1) have "line_ok ln" by force
  then have g: "line_ok (g ln)" by (rule assms(2))
  have "set (AList.update n (g ln) (file_lines f)) \<subseteq> insert (n, g ln) (set (file_lines f))"
    by (rule set_update_subset)
  with assms(1) g Some show ?thesis by (auto simp: with_line_def)
qed

lemma addOpcode_ok: "opcode_ok x \<Longrightarrow> line_ok ln \<Longrightarrow> line_ok (addOpcode ln key x)"
  by (simp add: addOpcode_def line_ok_def)

lemma fold_with_line_ok:
  assumes "\<forall>x \<in> set xs. opcode_ok x"
    and "\<forall>ln \<in> set (map snd (file_lines f)). line_ok ln"
  shows "\<forall>ln \<in> set (map snd (file_lines
             (fold (\<lambda>x f. with_line f (srcline x) (\<lambda>ln. addOpcode ln (k x) x)) xs f))). line_ok ln"
  using assms
proof (induction xs arbitrary: f)
  case Nil
  then show ?case by simp
next
  case (Cons x xs)
  have "\<forall>ln \<in> set (map snd (file_lines
            (with_line f (srcline x) (\<lambda>ln. addOpcode ln (k x) x)))). line_ok ln"
    using Cons.prems by (intro with_line_ok) (simp_all add: addOpcode_ok)
  from Cons.IH[OF _ this] Cons.prems(1) show ?case by simp
qed

lemma add_script_returns:
  assumes s: "script_ok s" and l: "lines_ok files"
  shows "\<exists>files'. add_script files s = Inr files' \<and> lines_ok files'"
proof -
  let ?fname = "str_opt (filename s)"
  let ?file0 = "case map_of files ?fname of None \<Rightarrow> new_file ?fname | Some f \<Rightarrow> f"
  let ?file1 = "fold (\<lambda>opcode f. with_line f (srcline opcode)
                        (\<lambda>ln. addOpcode ln (str_opt (name s) @ '':'' @ string_of_nat (pc opcode))
                                 opcode))
                  (opcodes s) ?file0"
  let ?file2 = "with_line ?file1 (srcline (hd (opcodes s))) (\<lambda>ln. ln\<lparr>startFunc := True\<rparr>)"
  let ?file3 = "with_line ?file2 (srcline (last (opcodes s))) (\<lambda>ln. ln\<lparr>endFunc := True\<rparr>)"
  from s have ne: "opcodes s \<noteq> []" and fn: "?fname \<notin> set object_prototype_keys"
    and ops: "\<forall>x \<in> set (opcodes s). opcode_ok x"
    by (simp_all add: script_ok_def)
  have r: "add_script files s = Inr (AList.update ?fname ?file3 files)"
    using ne fn by (simp add: add_script_def Let_def)
  have "\<forall>ln \<in> set (map snd (file_lines ?file0)). line_ok ln"
    using l by (auto simp: lines_ok_def new_file_def split: option.splits)
  then have "\<forall>ln \<in> set (map snd (file_lines ?file1)). line_ok ln"
    by (rule fold_with_line_ok[OF ops])
  then have "\<forall>ln \<in> set (map snd (file_lines ?file2)). line_ok ln"
    by (rule with_line_ok) (simp add: line_ok_def)
  then have "\<forall>ln \<in> set (map snd (file_lines ?file3)). line_ok ln"
    by (rule with_line_ok) (simp add: line_ok_def)
  then have "lines_ok (AList.update ?fname ?file3 files)"
    using l unfolding lines_ok_def by (simp add: update_conv')
  with r show ?thesis by blast
qed

lemma add_scripts_returns:
  "\<forall>s \<in> set ss. script_ok s \<Longrightarrow> lines_ok files
     \<Longrightarrow> \<exists>files'. add_scripts files ss = Inr files' \<and> lines_ok files'"
proof (induction ss arbitrary: files)
  case Nil
  then show ?case by simp
next
  case (Cons s ss)
  from add_script_returns[OF _ Cons.prems(2), of s] Cons.prems(1) obtain f1 where
    f1: "add_script files s = Inr f1" "lines_ok f1" by auto
  from Cons.IH[OF _ f1(2)] Cons.prems(1) f1(1) show ?case by simp
qed

subsection \<open>The lines on which \<^verbatim>\<open>counts()\<close> returns \<^verbatim>\<open>undefined\<close>\<close>

text \<open>The loop only appends to \<^verbatim>\<open>rawcounts\<close>.\<close>

lemma counts_loop_grows:
  "counts_loop ops (mn, mx, raw, lastopcode) = (mn', mx', raw', lastopcode')
     \<Longrightarrow> \<exists>ext. raw' = raw @ ext"
proof (induction ops arbitrary: mn mx raw lastopcode)
  case Nil
  then show ?case by simp
next
  case (Cons a ops)
  show ?case
  proof (cases "op_reachable a")
    case False
    with Cons.prems have "counts_loop ops (mn, mx, raw @ [Num (- 1)], Some a)
                            = (mn', mx', raw', lastopcode')" by simp
    from Cons.IH[OF this] show ?thesis by auto
  next
    case True
    show ?thesis
    proof (cases "case lastopcode of None \<Rightarrow> False
                  | Some l \<Rightarrow> fallsthrough l \<and>
                      (strict_eq (count a) (count l) \<or>
                       (strict_eq (count a) (Num 0) \<and> \<not> strict_eq (count l) (Num 0)))")
      case s: True
      with True Cons.prems have "counts_loop ops (mn, mx, raw, Some a)
                            = (mn', mx', raw', lastopcode')" by (simp add: Let_def)
      from Cons.IH[OF this] show ?thesis .
    next
      case s: False
      with True Cons.prems
      have "counts_loop ops (js_min mn (count a), js_max mx (count a), raw @ [count a], Some a)
                            = (mn', mx', raw', lastopcode')" by (simp add: Let_def)
      from Cons.IH[OF this] show ?thesis by auto
    qed
  qed
qed

lemma strict_eq_dead: "strict_eq x (Num (- 1)) \<Longrightarrow> x = Num (- 1)"
  by (cases x) simp_all

text \<open>When \<^verbatim>\<open>rawcounts\<close> ends as \<open>[-1]\<close>, the line holds one instruction, which is not
  marked.\<close>

lemma counts_loop_dead:
  assumes ok: "\<forall>x \<in> set ops. opcode_ok x"
    and r: "counts_loop ops (Infinity, Num 0, [], None) = (mn, mx, [Num (- 1)], lastopcode)"
  shows "\<exists>u. ops = [u] \<and> \<not> op_reachable u"
proof (cases ops)
  case Nil
  with r show ?thesis by simp
next
  case (Cons a rest)
  have oka: "opcode_ok a" using ok Cons by simp
  show ?thesis
  proof (cases "op_reachable a")
    case True
    with r Cons have "counts_loop rest (js_min Infinity (count a), js_max (Num 0) (count a),
                        [] @ [count a], Some a) = (mn, mx, [Num (- 1)], lastopcode)"
      by (simp add: Let_def)
    from counts_loop_grows[OF this] have "count a = Num (- 1)" by (auto simp: Cons_eq_append_conv)
    with oka show ?thesis by (simp add: opcode_ok_def count_ok_def)
  next
    case False
    with r Cons have r1: "counts_loop rest (Infinity, Num 0, [Num (- 1)], Some a)
                        = (mn, mx, [Num (- 1)], lastopcode)"
      by simp
    show ?thesis
    proof (cases rest)
      case Nil
      with Cons False show ?thesis by simp
    next
      case (Cons b rest')
      have nf: "\<not> fallsthrough a" using oka False by (simp add: opcode_ok_def)
      have "\<exists>m1 m2 c. counts_loop rest' (m1, m2, [Num (- 1), c], Some b)
                        = (mn, mx, [Num (- 1)], lastopcode)"
        using r1 Cons nf by (cases "op_reachable b") (auto simp: Let_def)
      then obtain m1 m2 c where "counts_loop rest' (m1, m2, [Num (- 1), c], Some b)
                        = (mn, mx, [Num (- 1)], lastopcode)" by blast
      from counts_loop_grows[OF this] show ?thesis by simp
    qed
  qed
qed

lemma counts_defined:
  assumes ok: "line_ok ln" and nd: "\<not> dead_single ln"
  shows "counts ln \<noteq> None"
proof
  assume n: "counts ln = None"
  obtain mn mx raw lastopcode where
    c: "counts_loop (map snd (line_opcodes ln)) (Infinity, Num 0, [], None)
          = (mn, mx, raw, lastopcode)"
    by (metis prod_cases4)
  from n c have len: "length raw = 1" and d: "strict_eq (raw ! 0) (Num (- 1))"
    and st: "case line_opcodes ln of [] \<Rightarrow> True
             | (key, first) # rest \<Rightarrow> assembly first \<noteq> ''stop''"
    by (auto simp: counts_def split: if_splits list.splits)
  from len d have "raw = [Num (- 1)]"
    using strict_eq_dead[of "raw ! 0"] by (cases raw) auto
  with c have "counts_loop (map snd (line_opcodes ln)) (Infinity, Num 0, [], None)
                 = (mn, mx, [Num (- 1)], lastopcode)" by simp
  from counts_loop_dead[OF _ this] ok obtain u where
    u: "map snd (line_opcodes ln) = [u]" "\<not> op_reachable u"
    by (auto simp: line_ok_def)
  then obtain key where k: "line_opcodes ln = [(key, u)]" by (cases "line_opcodes ln") auto
  with st u(2) have "dead_single ln" by (simp add: dead_single_def)
  with nd show False by simp
qed

lemma coverage_returns: "counts ln \<noteq> None \<Longrightarrow> \<exists>c. coverage ln = Inr c"
  by (auto simp: coverage_def)

subsection \<open>Snapshots and the first pass\<close>

lemma File_coverage_loop_returns:
  "\<forall>ln \<in> set lns. \<exists>c. coverage ln = Inr c \<Longrightarrow> \<exists>t'. File_coverage_loop lns t = Inr t'"
proof (induction lns arbitrary: t)
  case Nil
  show ?case by (simp del: split_paired_Ex)
next
  case (Cons ln lns)
  from Cons.prems obtain c where "coverage ln = Inr c" by auto
  with Cons.IH[of "count_class c t"] Cons.prems show ?case by (simp del: split_paired_Ex)
qed

lemma snapshot_lines_returns:
  "\<forall>ln \<in> set (map snd xs). \<exists>c. coverage ln = Inr c \<Longrightarrow> \<exists>ls. snapshot_lines xs acc = Inr ls"
proof (induction xs arbitrary: acc)
  case Nil
  then show ?case by simp
next
  case (Cons x xs)
  obtain n ln where x: "x = (n, ln)" by (cases x)
  from Cons.prems x obtain c where "coverage ln = Inr c" by auto
  with Cons.IH Cons.prems x show ?case by simp
qed

lemma snapshot_returns:
  assumes "\<forall>ln \<in> set (map snd (file_lines f)). \<exists>c. coverage ln = Inr c"
  shows "\<exists>fd. snapshot fname f = Inr fd"
proof -
  from File_coverage_loop_returns[OF assms, of "(0, 0, 0, 0)"] obtain t where
    t: "File_coverage f = Inr t" by (auto simp: File_coverage_def)
  from snapshot_lines_returns[OF assms, of "[]"] obtain ls where
    ls: "snapshot_lines (file_lines f) [] = Inr ls" by blast
  obtain c p u d where "t = (c, p, u, d)" by (rule prod_cases4)
  with t ls show ?thesis by (simp add: snapshot_def)
qed

text \<open>The first pass on names that the engine does not store, when every snapshot can be
  taken: every file is new, and the pass ends without an error.\<close>

lemma process_files_fresh:
  assumes "distinct (map fst fs)"
    and "\<forall>n \<in> set (map fst fs). map_of (filenames st0) n = None"
    and "\<forall>(n, f) \<in> set fs. \<exists>fd. snapshot n f = Inr fd"
  shows "\<exists>st evs. process_files st0 fs evs0 = (st, evs, None)
           \<and> map fst (filenames st) = map fst (filenames st0) @ map fst fs"
  using assms
proof (induction fs arbitrary: st0 evs0)
  case Nil
  then show ?case by simp
next
  case (Cons x fs)
  obtain fname f where x: "x = (fname, f)" by (cases x)
  from Cons.prems(3) x obtain fd where fd: "snapshot fname f = Inr fd" by auto
  have none: "map_of (filenames st0) fname = None" using Cons.prems(2) x by simp
  let ?st1 = "st0\<lparr>filenames := filenames st0 @ [(fname, fd)]\<rparr>"
  have step: "process_files st0 (x # fs) evs0
                = process_files ?st1 fs (evs0 @ [onNewScript fname fd])"
    using x fd none by simp
  have d: "distinct (map fst fs)" and nin: "fname \<notin> set (map fst fs)"
    using Cons.prems(1) x by simp_all
  have fresh: "\<forall>n \<in> set (map fst fs). map_of (filenames ?st1) n = None"
  proof
    fix n assume n: "n \<in> set (map fst fs)"
    with nin have "n \<noteq> fname" by auto
    moreover from n Cons.prems(2) have "map_of (filenames st0) n = None" by auto
    ultimately show "map_of (filenames ?st1) n = None"
      by (auto simp: map_add_def split: option.splits)
  qed
  have rest: "\<forall>(n, f) \<in> set fs. \<exists>fd. snapshot n f = Inr fd" using Cons.prems(3) by simp
  from Cons.IH[OF d fresh rest, of "evs0 @ [onNewScript fname fd]"] obtain st evs where
    "process_files ?st1 fs (evs0 @ [onNewScript fname fd]) = (st, evs, None)"
    "map fst (filenames st) = map fst (filenames ?st1) @ map fst fs" by blast
  with step x show ?case by simp
qed


subsection \<open>Tallies\<close>

lemma count_class_commute:
  "count_class c1 (count_class c2 t) = count_class c2 (count_class c1 t)"
  by (cases t) (simp add: count_class_def)

lemma fold_insort_commute:
  assumes "\<And>x y t. f x (f y t) = f y (f x t)"
  shows "fold f (insort x xs) t = fold f xs (f x t)"
proof (induction xs arbitrary: t)
  case Nil
  then show ?case by simp
next
  case (Cons y ys)
  then show ?case using assms by simp
qed

lemma fold_sort_commute:
  assumes "\<And>x y t. f x (f y t) = f y (f x t)"
  shows "fold f (sort xs) t = fold f xs t"
proof (induction xs arbitrary: t)
  case Nil
  then show ?case by simp
next
  case (Cons x xs)
  have "fold f (sort (x # xs)) t = fold f (sort xs) (f x t)"
    using fold_insort_commute[of f x "sort xs" t] assms by (simp add: sort_key_simps)
  then show ?case using Cons.IH by simp
qed

text \<open>The rescan of a snapshot whose keys are distinct array indices counts every stored
  line once.\<close>

lemma rescan_distinct:
  assumes d: "distinct (map fst ls)" and ix: "\<forall>k \<in> set (map fst ls). is_array_index k"
  shows "rescan ls = fold (\<lambda>x t. count_class (l_coverage (snd x)) t) ls (0, 0, 0, 0)"
proof -
  let ?h = "\<lambda>i t. case map_of ls i of None \<Rightarrow> t | Some l \<Rightarrow> count_class (l_coverage l) t"
  have ai: "array_indices ls = sort (map fst ls)"
    using d ix by (simp add: array_indices_def filter_id_conv distinct_remdups_id)
  have comm: "?h x (?h y t) = ?h y (?h x t)" for x y t
    by (simp add: count_class_commute split: option.splits)
  have "rescan ls = fold ?h (sort (map fst ls)) (0, 0, 0, 0)"
    unfolding rescan_def ai foldl_conv_fold ..
  also have "\<dots> = fold ?h (map fst ls) (0, 0, 0, 0)"
    using fold_sort_commute[of ?h "map fst ls" "(0, 0, 0, 0)"] comm by blast
  also have "\<dots> = fold (?h \<circ> fst) ls (0, 0, 0, 0)" by (simp add: fold_map)
  also have "\<dots> = fold (\<lambda>x t. count_class (l_coverage (snd x)) t) ls (0, 0, 0, 0)"
  proof (rule fold_cong)
    fix x assume "x \<in> set ls"
    then have "(fst x, snd x) \<in> set ls" by simp
    then have "map_of ls (fst x) = Some (snd x)" using map_of_eq_Some_iff[OF d] by blast
    then show "(?h \<circ> fst) x = (\<lambda>t. count_class (l_coverage (snd x)) t)" by (simp add: fun_eq_iff)
  qed simp_all
  finally show ?thesis .
qed

subsection \<open>The snapshot of a file\<close>

lemma update_fresh: "k \<notin> fst ` set al \<Longrightarrow> AList.update k v al = al @ [(k, v)]"
  by (induction al) auto

text \<open>On a file with distinct line numbers the snapshot has one entry for each line, in the
  order of the lines, with the class that \<^verbatim>\<open>File.prototype.coverage\<close> counts.\<close>

lemma snapshot_lines_distinct:
  assumes "distinct (map fst xs)"
    and "\<forall>n \<in> set (map fst xs). int n - 1 \<notin> fst ` set acc"
    and "snapshot_lines xs acc = Inr ls"
  shows "\<exists>ys. ls = acc @ ys \<and> map fst ys = map (\<lambda>x. int (fst x) - 1) xs
           \<and> map (\<lambda>y. Inr (l_coverage (snd y))) ys = map (\<lambda>x. coverage (snd x)) xs"
  using assms
proof (induction xs arbitrary: acc)
  case Nil
  then show ?case by simp
next
  case (Cons x xs)
  obtain n ln where x: "x = (n, ln)" by (cases x)
  from Cons.prems(3) x obtain c where c: "coverage ln = Inr c"
    by (auto split: sum.splits)
  let ?l = "\<lparr>l_coverage = c, l_counts = (case counts ln of None \<Rightarrow> [] | Some cs \<Rightarrow> cs),
             l_startFunc = startFunc ln, l_endFunc = endFunc ln\<rparr>"
  have fresh: "int n - 1 \<notin> fst ` set acc" using Cons.prems(2) x by simp
  then have u: "AList.update (int n - 1) ?l acc = acc @ [(int n - 1, ?l)]" by (rule update_fresh)
  from Cons.prems(3) x c u have r: "snapshot_lines xs (acc @ [(int n - 1, ?l)]) = Inr ls" by simp
  have d: "distinct (map fst xs)" using Cons.prems(1) by simp
  have "\<forall>m \<in> set (map fst xs). int m - 1 \<notin> fst ` set (acc @ [(int n - 1, ?l)])"
  proof
    fix m assume m: "m \<in> set (map fst xs)"
    with Cons.prems(1) x have "m \<noteq> n" by auto
    moreover from m Cons.prems(2) have "int m - 1 \<notin> fst ` set acc" by auto
    ultimately show "int m - 1 \<notin> fst ` set (acc @ [(int n - 1, ?l)])" by auto
  qed
  from Cons.IH[OF d this r] obtain ys where
    ys: "ls = (acc @ [(int n - 1, ?l)]) @ ys" "map fst ys = map (\<lambda>x. int (fst x) - 1) xs"
        "map (\<lambda>y. Inr (l_coverage (snd y))) ys = map (\<lambda>x. coverage (snd x)) xs"
    by blast
  show ?case
  proof (intro exI conjI)
    show "ls = acc @ ((int n - 1, ?l) # ys)" using ys(1) by simp
    show "map fst ((int n - 1, ?l) # ys) = map (\<lambda>x. int (fst x) - 1) (x # xs)"
      using ys(2) x by simp
    show "map (\<lambda>y. Inr (l_coverage (snd y))) ((int n - 1, ?l) # ys)
            = map (\<lambda>x. coverage (snd x)) (x # xs)"
      using ys(3) x c by simp
  qed
qed

lemma File_coverage_loop_fold:
  assumes "map (\<lambda>y. Inr (l_coverage (snd y))) ys = map coverage lns"
  shows "File_coverage_loop lns t = Inr (fold (\<lambda>x t. count_class (l_coverage (snd x)) t) ys t)"
  using assms
proof (induction lns arbitrary: ys t)
  case Nil
  then show ?case by simp
next
  case (Cons ln lns)
  from Cons.prems obtain y ys' where ys: "ys = y # ys'" by (cases ys) auto
  with Cons.prems have c: "coverage ln = Inr (l_coverage (snd y))"
    and r: "map (\<lambda>y. Inr (l_coverage (snd y))) ys' = map coverage lns"
    by auto
  show ?case using Cons.IH[OF r] c ys by simp
qed

lemma snapshot_tallies:
  assumes d: "distinct (map fst (file_lines f))"
    and s: "snapshot fname f = Inr fd"
    and ix: "\<forall>k \<in> set (map fst (fd_lines fd)). is_array_index k"
  shows "rescan (fd_lines fd) = (covered fd, partial fd, uncovered fd, dead fd)"
proof -
  from s obtain t ls where t: "File_coverage f = Inr t"
    and ls: "snapshot_lines (file_lines f) [] = Inr ls"
    and fd: "fd_lines fd = ls" "(covered fd, partial fd, uncovered fd, dead fd) = t"
    by (auto simp: snapshot_def split: sum.splits prod.splits)
  from snapshot_lines_distinct[OF d _ ls] obtain ys where
    ys: "ls = ys" "map fst ys = map (\<lambda>x. int (fst x) - 1) (file_lines f)"
        "map (\<lambda>y. Inr (l_coverage (snd y))) ys = map (\<lambda>x. coverage (snd x)) (file_lines f)"
    by auto
  have "inj_on (\<lambda>n. int n - 1) (set (map fst (file_lines f)))" by (rule inj_onI) simp
  with d have "distinct (map (\<lambda>n. int n - 1) (map fst (file_lines f)))"
    unfolding distinct_map[of "\<lambda>n. int n - 1" "map fst (file_lines f)"] by blast
  then have dk: "distinct (map fst ls)" using ys(1,2) by (simp add: comp_def)
  have "map (\<lambda>y. Inr (l_coverage (snd y))) ys = map coverage (map snd (file_lines f))"
    using ys(3) by (simp add: comp_def)
  from File_coverage_loop_fold[OF this, of "(0, 0, 0, 0)"] t
  have "t = fold (\<lambda>x t. count_class (l_coverage (snd x)) t) ls (0, 0, 0, 0)"
    using ys(1) by (simp add: File_coverage_def)
  moreover have "rescan ls = fold (\<lambda>x t. count_class (l_coverage (snd x)) t) ls (0, 0, 0, 0)"
    using rescan_distinct[OF dk] ix fd(1) by simp
  ultimately show ?thesis using fd by simp
qed

subsection \<open>Reconciling a snapshot with itself\<close>

lemma strict_eq_refl: "NaN \<noteq> x \<Longrightarrow> strict_eq x x"
  by (cases x) simp_all

lemma equalArrays_refl: "NaN \<notin> set cs \<Longrightarrow> equalArrays cs cs"
  by (induction cs) (simp_all add: equalArrays_def strict_eq_refl)

lemma reconcile_lines_same:
  assumes "\<forall>i l. map_of ls i = Some l \<longrightarrow> NaN \<notin> set (l_counts l)"
  shows "reconcile_lines fname ls is ls evs = (ls, evs, None)"
proof (induction "is")
  case Nil
  then show ?case by simp
next
  case (Cons i rest)
  show ?case
  proof (cases "map_of ls i")
    case None
    with Cons show ?thesis by simp
  next
    case (Some l)
    with assms have "equalArrays (l_counts l) (l_counts l)" by (simp add: equalArrays_refl)
    with Some Cons show ?thesis by simp
  qed
qed

lemma reconcile_same:
  assumes "\<forall>i l. map_of (fd_lines fd) i = Some l \<longrightarrow> NaN \<notin> set (l_counts l)"
    and "rescan (fd_lines fd) = (covered fd, partial fd, uncovered fd, dead fd)"
  shows "reconcile fd fd = (fd, [], None)"
  using reconcile_lines_same[OF assms(1)] assms(2) by (simp add: reconcile_def)


subsection \<open>The files of a trace\<close>

lemma with_line_distinct:
  "distinct (map fst (file_lines f)) \<Longrightarrow> distinct (map fst (file_lines (with_line f n g)))"
  by (auto simp: with_line_def distinct_update map_of_eq_None_iff split: option.splits)

lemma fold_with_line_distinct:
  "distinct (map fst (file_lines f)) \<Longrightarrow>
     distinct (map fst (file_lines (fold (\<lambda>x f. with_line f (ln x) (g x)) xs f)))"
  by (induction xs arbitrary: f) (simp_all add: with_line_distinct)

lemma add_script_ok:
  assumes "files_ok files" "distinct (map fst files)" "add_script files s = Inr files'"
  shows "files_ok files' \<and> distinct (map fst files')"
proof -
  let ?fname = "str_opt (filename s)"
  let ?file0 = "case map_of files ?fname of None \<Rightarrow> new_file ?fname | Some f \<Rightarrow> f"
  let ?file1 = "fold (\<lambda>opcode f. with_line f (srcline opcode)
                        (\<lambda>ln. addOpcode ln (str_opt (name s) @ '':'' @ string_of_nat (pc opcode))
                                 opcode))
                  (opcodes s) ?file0"
  let ?file3 = "with_line (with_line ?file1 (srcline (hd (opcodes s))) (\<lambda>ln. ln\<lparr>startFunc := True\<rparr>))
                  (srcline (last (opcodes s))) (\<lambda>ln. ln\<lparr>endFunc := True\<rparr>)"
  from assms(3) have f': "files' = AList.update ?fname ?file3 files"
    by (simp add: add_script_def Let_def split: if_splits)
  have "distinct (map fst (file_lines ?file0))"
    using assms(1) by (auto simp: files_ok_def new_file_def split: option.splits)
  then have "distinct (map fst (file_lines ?file1))" by (rule fold_with_line_distinct)
  then have "distinct (map fst (file_lines ?file3))" by (intro with_line_distinct)
  then have "files_ok files'"
    using assms(1) unfolding f' files_ok_def by (simp add: update_conv')
  moreover have "distinct (map fst files')" unfolding f' using assms(2) by (rule distinct_update)
  ultimately show ?thesis ..
qed

lemma add_scripts_ok:
  "files_ok files \<Longrightarrow> distinct (map fst files) \<Longrightarrow> add_scripts files ss = Inr files'
     \<Longrightarrow> files_ok files' \<and> distinct (map fst files')"
proof (induction ss arbitrary: files)
  case Nil
  then show ?case by simp
next
  case (Cons s ss)
  from Cons.prems(3) obtain f1 where f1: "add_script files s = Inr f1" "add_scripts f1 ss = Inr files'"
    by (auto split: sum.splits)
  from add_script_ok[OF Cons.prems(1,2) f1(1)] Cons.IH[OF _ _ f1(2)] show ?case by blast
qed

lemma sorted_files:
  assumes "files_ok files" "distinct (map fst files)"
  shows "distinct (map fst (sort_key fst files))"
    and "(n, f) \<in> set (sort_key fst files) \<Longrightarrow> distinct (map fst (file_lines f))"
proof -
  show "distinct (map fst (sort_key fst files))"
    using assms(2) by (simp add: distinct_map)
  assume "(n, f) \<in> set (sort_key fst files)"
  then have "(n, f) \<in> set files" by simp
  then have "map_of files n = Some f" using map_of_eq_Some_iff[OF assms(2)] by blast
  with assms(1) show "distinct (map fst (file_lines f))" by (simp add: files_ok_def)
qed

subsection \<open>The first and the second pass over the files\<close>

text \<open>The first pass on names that the engine does not store: every file gets its snapshot
  stored under its name.\<close>

lemma process_files_new:
  assumes "distinct (map fst fs)"
    and "\<forall>n \<in> set (map fst fs). map_of (filenames st0) n = None"
    and "process_files st0 fs evs0 = (st, evs, None)"
  shows "(\<forall>n f. (n, f) \<in> set fs \<longrightarrow>
             (\<exists>fd. snapshot n f = Inr fd \<and> map_of (filenames st) n = Some fd))
       \<and> (\<forall>n. n \<notin> set (map fst fs) \<longrightarrow> map_of (filenames st) n = map_of (filenames st0) n)"
  using assms
proof (induction fs arbitrary: st0 evs0)
  case Nil
  then show ?case by simp
next
  case (Cons x fs)
  obtain fname f where x: "x = (fname, f)" by (cases x)
  have none: "map_of (filenames st0) fname = None" using Cons.prems(2) x by simp
  from Cons.prems(3) x obtain fd where fd: "snapshot fname f = Inr fd"
    by (auto split: sum.splits)
  let ?st1 = "st0\<lparr>filenames := filenames st0 @ [(fname, fd)]\<rparr>"
  from Cons.prems(3) x fd none
  have r: "process_files ?st1 fs (evs0 @ [onNewScript fname fd]) = (st, evs, None)" by simp
  have d: "distinct (map fst fs)" and nin: "fname \<notin> set (map fst fs)"
    using Cons.prems(1) x by simp_all
  have m1: "map_of (filenames ?st1) n = (if n = fname then Some fd else map_of (filenames st0) n)"
    for n
    using none by (auto simp: map_add_def split: option.splits)
  have "\<forall>n \<in> set (map fst fs). map_of (filenames ?st1) n = None"
  proof
    fix n assume n: "n \<in> set (map fst fs)"
    with nin have "n \<noteq> fname" by auto
    moreover from n Cons.prems(2) have "map_of (filenames st0) n = None" by auto
    ultimately show "map_of (filenames ?st1) n = None" unfolding m1 by simp
  qed
  note ih = Cons.IH[OF d this r]
  show ?case
  proof (intro conjI allI impI)
    fix n g assume "(n, g) \<in> set (x # fs)"
    then consider "n = fname" "g = f" | "(n, g) \<in> set fs" using x by auto
    then show "\<exists>fd. snapshot n g = Inr fd \<and> map_of (filenames st) n = Some fd"
    proof cases
      case 1
      from ih nin have "map_of (filenames st) fname = map_of (filenames ?st1) fname" by blast
      then have "map_of (filenames st) fname = Some fd" unfolding m1 by simp
      with 1 fd show ?thesis by blast
    next
      case 2
      with ih show ?thesis by blast
    qed
  next
    fix n assume n: "n \<notin> set (map fst (x # fs))"
    then have "n \<notin> set (map fst fs)" "n \<noteq> fname" using x by auto
    with ih have "map_of (filenames st) n = map_of (filenames ?st1) n" by blast
    then show "map_of (filenames st) n = map_of (filenames st0) n"
      unfolding m1 using \<open>n \<noteq> fname\<close> by simp
  qed
qed

text \<open>The second pass on files whose snapshots are stored and reconcile with themselves
  without a change: no event, and the state stays as it is.\<close>

lemma process_files_same:
  assumes "\<forall>n f. (n, f) \<in> set fs \<longrightarrow>
             (\<exists>fd. snapshot n f = Inr fd \<and> map_of (filenames st) n = Some fd
                  \<and> reconcile fd fd = (fd, [], None))"
  shows "process_files st fs evs = (st, evs, None)"
  using assms
proof (induction fs)
  case Nil
  then show ?case by simp
next
  case (Cons x fs)
  obtain fname f where x: "x = (fname, f)" by (cases x)
  from Cons.prems x obtain fd where fd: "snapshot fname f = Inr fd"
    "map_of (filenames st) fname = Some fd" "reconcile fd fd = (fd, [], None)"
    by auto
  have "AList.update fname fd (filenames st) = filenames st"
    using fd(2) by (rule update_triv)
  then have s: "st\<lparr>filenames := AList.update fname fd (filenames st)\<rparr> = st" by simp
  have "process_files st fs evs = (st, evs, None)" using Cons by simp
  then show ?case using x fd s by simp
qed

text \<open>
  Claim C2, as stated: parsing the identical text again triggers no \<^verbatim>\<open>onLineUpdate\<close>. An
  instruction line with two count fields has the count \<open>NaN\<close>, the line has the counts
  \<open>[NaN]\<close>, and \<^verbatim>\<open>equalArrays\<close> finds \<open>[NaN]\<close> different from itself: the second parse of
  \<open>trace_two_fields\<close> triggers \<^verbatim>\<open>onLineUpdate\<close> although nothing has changed.
\<close>

theorem reparse_line_update_counterexample:
  "(case parseData new_engine trace_two_fields of
      (st, evs, err) \<Rightarrow>
        err = None \<and>
        snd (parseData st trace_two_fields) =
          ([onLineUpdate ''a.js'' 0
              \<lparr>l_coverage = None, l_counts = [NaN], l_startFunc = True, l_endFunc = True\<rparr>],
           None))"
  by code_simp

text \<open>
  Claim C2, amended: if the first \<^verbatim>\<open>parseData(text)\<close> on a new engine returns, and in the
  state it leaves every stored line is an element of the \<^verbatim>\<open>lines\<close> array (its source line
  number is between 1 and \<open>2^32 - 1\<close>) and no stored counts array holds \<open>NaN\<close>, then the
  second \<^verbatim>\<open>parseData(text)\<close> returns, triggers no event at all and leaves the state as it is.
\<close>

theorem reparse_emits_nothing:
  assumes "parseData new_engine rawdata = (st, evs, None)"
    and "\<forall>(fname, fd) \<in> set (filenames st). \<forall>(k, l) \<in> set (fd_lines fd).
           is_array_index k \<and> NaN \<notin> set (l_counts l)"
  shows "parseData st rawdata = (st, [], None)"
proof -
  from assms(1) obtain ss files where ss: "parse_scripts rawdata = Inr ss"
    and files: "add_scripts [] ss = Inr files"
    and first: "process_files new_engine (sort_key fst files) [] = (st, evs, None)"
    by (auto simp: parseData_def split: sum.splits)
  have "files_ok []" by (simp add: files_ok_def)
  from add_scripts_ok[OF this _ files] have ok: "files_ok files" "distinct (map fst files)"
    by simp_all
  note sf = sorted_files[OF ok]
  have "\<forall>n \<in> set (map fst (sort_key fst files)). map_of (filenames new_engine) n = None"
    by (simp add: new_engine_def)
  note stored = process_files_new[OF sf(1) this first, THEN conjunct1, rule_format]
  have "process_files st (sort_key fst files) [] = (st, [], None)"
  proof (rule process_files_same, intro allI impI)
    fix n f assume nf: "(n, f) \<in> set (sort_key fst files)"
    from stored[OF nf] obtain fd where fd: "snapshot n f = Inr fd"
      "map_of (filenames st) n = Some fd" by blast
    from fd(2) have mem: "(n, fd) \<in> set (filenames st)" by (rule map_of_SomeD)
    with assms(2) have good: "\<forall>(k, l) \<in> set (fd_lines fd). is_array_index k \<and> NaN \<notin> set (l_counts l)"
      by blast
    have ix: "\<forall>k \<in> set (map fst (fd_lines fd)). is_array_index k" using good by auto
    have nn: "\<forall>i l. map_of (fd_lines fd) i = Some l \<longrightarrow> NaN \<notin> set (l_counts l)"
      using good by (auto dest!: map_of_SomeD)
    have "reconcile fd fd = (fd, [], None)"
      using reconcile_same[OF nn snapshot_tallies[OF sf(2)[OF nf] fd(1) ix]] .
    with fd show "\<exists>fd. snapshot n f = Inr fd \<and> map_of (filenames st) n = Some fd
                     \<and> reconcile fd fd = (fd, [], None)" by blast
  qed
  then show ?thesis using ss files by (simp add: parseData_def)
qed

theorem reparse_emits_nothing_witness:
  "parseData new_engine trace_line1 = (engine_line1, [onNewScript ''a.js'' filedata_line1], None)
   \<and> parseData engine_line1 trace_line1 = (engine_line1, [], None)"
proof -
  have h1: "parseData new_engine trace_line1
              = (engine_line1, [onNewScript ''a.js'' filedata_line1], None)"
    by code_simp
  have h2: "\<forall>(fname, fd) \<in> set (filenames engine_line1). \<forall>(k, l) \<in> set (fd_lines fd).
              is_array_index k \<and> NaN \<notin> set (l_counts l)"
    by (simp add: engine_line1_def filedata_line1_def is_array_index_def)
  from reparse_emits_nothing[OF h1 h2] h1 show ?thesis by simp
qed


text \<open>Why the array indices are required: a line with source line number 0 is stored at the
  key \<open>-1\<close>, which the loops over the \<^verbatim>\<open>lines\<close> array do not visit. The first parse stores
  the tallies of \<^verbatim>\<open>File.prototype.coverage\<close> (one covered line), the second parse counts no
  line and triggers \<^verbatim>\<open>onScriptUpdate\<close> with all tallies 0.\<close>

lemma reparse_script_update_line_zero:
  "(case parseData new_engine trace_line0 of
      (st, evs, err) \<Rightarrow>
        err = None \<and>
        snd (parseData st trace_line0) =
          ([onScriptUpdate ''a.js''
              \<lparr>fd_filename = ''a.js'', covered = 0, partial = 0, uncovered = 0, dead = 0,
                fd_lines =
                  [(- 1, \<lparr>l_coverage = Some ''full'', l_counts = [Num 3],
                           l_startFunc = True, l_endFunc = True\<rparr>)]\<rparr>],
           None))"
  by code_simp

subsection \<open>The pass over the files of a text\<close>

lemma reconcile_lines_returns:
  "\<forall>i \<in> set is. map_of old i \<noteq> None \<Longrightarrow>
     \<exists>ls evs'. reconcile_lines fname new is old evs = (ls, evs', None)"
proof (induction "is" arbitrary: old evs)
  case Nil
  then show ?case by simp
next
  case (Cons i rest)
  from Cons.prems obtain oldline where o: "map_of old i = Some oldline" by auto
  have keep: "\<forall>j \<in> set rest. map_of (AList.update i x old) j \<noteq> None" for x
    using Cons.prems by (simp add: update_conv')
  show ?case
  proof (cases "map_of new i")
    case None
    with Cons.IH[of old evs] Cons.prems show ?thesis by simp
  next
    case (Some newline)
    show ?thesis
    proof (cases "l_coverage newline \<noteq> l_coverage oldline
                   \<or> \<not> equalArrays (l_counts newline) (l_counts oldline)")
      case True
      let ?x = "oldline\<lparr>l_coverage := l_coverage newline, l_counts := l_counts newline\<rparr>"
      from Cons.IH[OF keep[of ?x], of "evs @ [onLineUpdate fname i ?x]"] Some o True
      show ?thesis by simp
    next
      case False
      with Cons.IH[of old evs] Cons.prems Some o show ?thesis by simp
    qed
  qed
qed

lemma reconcile_returns:
  assumes "\<forall>i \<in> set (array_indices (fd_lines fd)). map_of (fd_lines olddata) i \<noteq> None"
  shows "\<exists>olddata' evs'. reconcile olddata fd = (olddata', evs', None)"
proof -
  from reconcile_lines_returns[OF assms, of "fd_filename fd" "fd_lines fd" "[]"]
  obtain ls evs' where
    r: "reconcile_lines (fd_filename fd) (fd_lines fd) (array_indices (fd_lines fd))
          (fd_lines olddata) [] = (ls, evs', None)" by blast
  obtain c p u d where t: "rescan ls = (c, p, u, d)" by (rule prod_cases4)
  show ?thesis unfolding reconcile_def r by (simp add: t)
qed

text \<open>The pass ends without an error when every snapshot can be taken and no file that
  the engine stores gets a line that its stored snapshot does not have.\<close>

lemma process_files_returns:
  assumes "distinct (map fst fs)"
    and "\<forall>(n, f) \<in> set fs. \<exists>fd. snapshot n f = Inr fd
           \<and> (\<forall>olddata. map_of (filenames st0) n = Some olddata \<longrightarrow>
                 (\<forall>i \<in> set (array_indices (fd_lines fd)). map_of (fd_lines olddata) i \<noteq> None))"
  shows "\<exists>st evs. process_files st0 fs evs0 = (st, evs, None)"
  using assms
proof (induction fs arbitrary: st0 evs0)
  case Nil
  then show ?case by simp
next
  case (Cons x fs)
  obtain fname f where x: "x = (fname, f)" by (cases x)
  from Cons.prems(2) x obtain fd where fd: "snapshot fname f = Inr fd"
    and old: "\<forall>olddata. map_of (filenames st0) fname = Some olddata \<longrightarrow>
                 (\<forall>i \<in> set (array_indices (fd_lines fd)). map_of (fd_lines olddata) i \<noteq> None)"
    by auto
  have d: "distinct (map fst fs)" and nin: "fname \<notin> set (map fst fs)"
    using Cons.prems(1) x by simp_all
  have rest: "\<forall>(n, f) \<in> set fs. \<exists>fd. snapshot n f = Inr fd
           \<and> (\<forall>olddata. map_of (filenames st1) n = Some olddata \<longrightarrow>
                 (\<forall>i \<in> set (array_indices (fd_lines fd)). map_of (fd_lines olddata) i \<noteq> None))"
    if same: "\<And>n. n \<noteq> fname \<Longrightarrow> map_of (filenames st1) n = map_of (filenames st0) n" for st1
  proof (intro ballI, clarify)
    fix n g assume m: "(n, g) \<in> set fs"
    with nin have "n \<noteq> fname" by force
    then have "map_of (filenames st1) n = map_of (filenames st0) n" by (rule same)
    with Cons.prems(2) m show "\<exists>fd. snapshot n g = Inr fd
           \<and> (\<forall>olddata. map_of (filenames st1) n = Some olddata \<longrightarrow>
                 (\<forall>i \<in> set (array_indices (fd_lines fd)). map_of (fd_lines olddata) i \<noteq> None))"
      by auto
  qed
  show ?case
  proof (cases "map_of (filenames st0) fname")
    case None
    let ?st1 = "st0\<lparr>filenames := filenames st0 @ [(fname, fd)]\<rparr>"
    have "map_of (filenames ?st1) n = map_of (filenames st0) n" if "n \<noteq> fname" for n
      using that by (auto simp: map_add_def split: option.splits)
    from Cons.IH[OF d rest[OF this], of "evs0 @ [onNewScript fname fd]"]
    show ?thesis using x fd None by simp
  next
    case (Some olddata)
    from reconcile_returns[of fd olddata] old Some obtain olddata' evs' where
      r: "reconcile olddata fd = (olddata', evs', None)" by blast
    let ?st1 = "st0\<lparr>filenames := AList.update fname olddata' (filenames st0)\<rparr>"
    have "map_of (filenames ?st1) n = map_of (filenames st0) n" if "n \<noteq> fname" for n
      using that by (simp add: update_conv')
    from Cons.IH[OF d rest[OF this], of "evs0 @ evs'"]
    show ?thesis using x fd Some r by simp
  qed
qed

subsection \<open>Lines that no pattern recognises\<close>

text \<open>Outside a record block a line that is not a start marker leaves the parser as it is;
  inside a record block a line that matches no pattern and does not begin with a tab
  leaves the script under construction as it is.\<close>

lemma unrecognized_line_outside:
  "\<not> inscript p \<Longrightarrow> SCRIPT_START l = None \<Longrightarrow> processLine p l = Inr p"
  by (simp add: processLine_def)

lemma unrecognized_line_inside:
  "SCRIPT_START l = None \<Longrightarrow> \<not> SCRIPT_END l \<Longrightarrow> l \<noteq> ''main:'' \<Longrightarrow> SCRIPT_DATA l = None
     \<Longrightarrow> nth_opt l 0 \<noteq> Some (CHR 0x09) \<Longrightarrow> Script_line script l = Inr script"
  by (simp add: Script_line_def)

text \<open>When the constructor and the analysis return. The constructor raises on one kind of
  line only: a line that matches no pattern and begins with a tab, while the script has no
  instruction yet. The analysis returns on every script that is well formed in the sense of
  \<open>resolves\<close>.\<close>

lemma Script_line_raises_iff:
  "Script_line script l = Inl e \<longleftrightarrow>
     SCRIPT_START l = None \<and> \<not> SCRIPT_END l \<and> l \<noteq> ''main:'' \<and> SCRIPT_DATA l = None
     \<and> nth_opt l 0 = Some (CHR 0x09) \<and> opcodes script = []"
  by (cases e) (auto simp: Script_line_def append_assembly_def Let_def split: option.splits)

lemma resolves_returns:
  assumes "resolves script"
  shows "\<exists>script'. checkReachability (Suc (length (opcodes script))) script = Some (Inr script')"
proof -
  let ?n = "Suc (length (opcodes script))"
  have "unmarked_count script < ?n" using unmarked_le[of script] by simp
  then obtain r where r: "reachable ?n script (Some 0) = Some r"
    using reachable_result(1)[of script ?n "Some 0"] by auto
  from assms have pos: "0 < length (opcodes script)" by (simp add: resolves_def)
  from reachable_marks(1)[OF r assms refl refl pos] obtain s' where "r = Inr s'" by blast
  with r show ?thesis by (simp add: checkReachability_def)
qed

lemma block_ok_resolves:
  assumes "Script b = Inr script" "resolves script"
    and "str_opt (filename script) \<notin> set object_prototype_keys"
  shows "block_ok b"
  using assms resolves_returns[OF assms(2)] by (auto simp: block_ok_def)


text \<open>
  Claim C7, as stated: \<^verbatim>\<open>parseData\<close> never raises. A record block with no instruction line
  makes \<^verbatim>\<open>checkReachability\<close> read the first instruction of an empty array, and the
  \<^verbatim>\<open>TypeError\<close> propagates to the caller of \<^verbatim>\<open>parseData\<close>.
\<close>

theorem parseData_empty_record_counterexample:
  "parseData new_engine trace_empty_record = (new_engine, [], Some TypeError)"
  by code_simp

text \<open>The other inputs on which \<^verbatim>\<open>parseData\<close> raises a \<^verbatim>\<open>TypeError\<close>: a continuation line before
  the first instruction line of a record block (the constructor reads the last element of an
  empty array), a file whose name is the name of an inherited property (\<^verbatim>\<open>filename in files\<close>
  is true and no \<^verbatim>\<open>File\<close> is created), and a source line that holds a single instruction
  which is not marked reachable and is not \<^verbatim>\<open>stop\<close> (\<^verbatim>\<open>counts()\<close> returns \<^verbatim>\<open>undefined\<close>).\<close>

lemma parseData_tab_first_raises:
  "parseData new_engine trace_tab_first = (new_engine, [], Some TypeError)"
  by code_simp

lemma parseData_inherited_name_raises:
  "parseData new_engine trace_inherited_name = (new_engine, [], Some TypeError)"
  by code_simp

lemma parseData_dead_line_raises:
  "parseData new_engine trace_dead_line = (new_engine, [], Some TypeError)"
  by code_simp

text \<open>
  Claim C7, amended. \<^verbatim>\<open>parseData\<close> returns without raising on every text and every engine
  state such that
  \<^item> on every record block of the text that is not skipped, the constructor and the
    reachability analysis return (so the block has an instruction line, and no continuation
    line before it), and the file name is not the name of an inherited property;
  \<^item> no source line of the files of the text holds a single instruction that is not marked
    reachable and is not \<^verbatim>\<open>stop\<close>;
  \<^item> no file that the engine stores gets a line that its stored snapshot does not have.

  Nothing is required of the other lines of the text: the lines outside the record blocks,
  and inside a record block the lines that match no pattern.
\<close>

theorem parseData_returns:
  assumes blocks: "\<forall>b \<in> set (record_blocks [] (split_on (CHR 0x0A) rawdata)).
                     skipped_header (hd b) \<or> block_ok b"
    and dead: "no_dead_single rawdata"
    and adopt: "no_adoption st rawdata"
  shows "\<exists>st' evs. parseData st rawdata = (st', evs, None)"
proof -
  let ?ls = "split_on (CHR 0x0A) rawdata"
  have inv0: "parser_inv new_parser"
    by (simp add: parser_inv_def parser_ok_new) (simp add: new_parser_def)
  have b0: "\<forall>b \<in> set (record_blocks (scriptlines new_parser) ?ls).
              skipped_header (hd b) \<or> block_ok b"
    using blocks by (simp add: new_parser_def)
  from processLines_blocks[OF inv0 split_on_lf b0] obtain p where
    p: "processLines new_parser ?ls = Inr p" "parser_inv p" by blast
  then have ss: "parse_scripts rawdata = Inr (scripts p)" by (simp add: parse_scripts_def)
  have sok: "\<forall>s \<in> set (scripts p). script_ok s" using p(2) by (simp add: parser_inv_def)
  have l0: "lines_ok []" by (simp add: lines_ok_def)
  from add_scripts_returns[OF sok l0] obtain files where
    files: "add_scripts [] (scripts p) = Inr files" "lines_ok files" by blast
  have "files_ok []" by (simp add: files_ok_def)
  from add_scripts_ok[OF this _ files(1)] have fok: "files_ok files" "distinct (map fst files)"
    by simp_all
  note sf = sorted_files[OF fok]
  have nd: "\<forall>(n, f) \<in> set files. \<forall>(k, ln) \<in> set (file_lines f). \<not> dead_single ln"
    using dead ss files(1) by (simp add: no_dead_single_def list_all_iff)
  have na: "\<forall>(fname, f) \<in> set files.
              case map_of (filenames st) fname of
                None \<Rightarrow> True
              | Some olddata \<Rightarrow>
                  (case snapshot fname f of
                     Inl e \<Rightarrow> True
                   | Inr fd \<Rightarrow>
                       list_all (\<lambda>i. map_of (fd_lines olddata) i \<noteq> None)
                         (array_indices (fd_lines fd)))"
    using adopt ss files(1) by (simp add: no_adoption_def list_all_iff)
  have "\<forall>(n, f) \<in> set (sort_key fst files). \<exists>fd. snapshot n f = Inr fd
           \<and> (\<forall>olddata. map_of (filenames st) n = Some olddata \<longrightarrow>
                 (\<forall>i \<in> set (array_indices (fd_lines fd)). map_of (fd_lines olddata) i \<noteq> None))"
  proof (intro ballI, clarify)
    fix n f assume "(n, f) \<in> set (sort_key fst files)"
    then have m: "(n, f) \<in> set files" by simp
    then have mo: "map_of files n = Some f" using map_of_eq_Some_iff[OF fok(2)] by blast
    have "\<exists>c. coverage ln = Inr c" if ln: "ln \<in> set (map snd (file_lines f))" for ln
    proof -
      from files(2) mo ln have "line_ok ln" unfolding lines_ok_def by blast
      moreover from nd m ln have "\<not> dead_single ln" by force
      ultimately show ?thesis using counts_defined coverage_returns by blast
    qed
    then obtain fd where fd: "snapshot n f = Inr fd" using snapshot_returns[of f n] by blast
    have "\<forall>i \<in> set (array_indices (fd_lines fd)). map_of (fd_lines olddata) i \<noteq> None"
      if "map_of (filenames st) n = Some olddata" for olddata
      using na m that fd by (force simp: list_all_iff)
    with fd show "\<exists>fd. snapshot n f = Inr fd
           \<and> (\<forall>olddata. map_of (filenames st) n = Some olddata \<longrightarrow>
                 (\<forall>i \<in> set (array_indices (fd_lines fd)). map_of (fd_lines olddata) i \<noteq> None))"
      by blast
  qed
  from process_files_returns[OF sf(1) this, of "[]"] show ?thesis
    using ss files(1) by (simp add: parseData_def)
qed

theorem parseData_returns_witness:
  "list_all (\<lambda>b. skipped_header (hd b) \<or> block_ok b)
     (record_blocks [] (split_on (CHR 0x0A) trace_noise))
   \<and> no_dead_single trace_noise \<and> no_adoption new_engine trace_noise
   \<and> (\<exists>st' evs. parseData new_engine trace_noise = (st', evs, None))"
proof -
  have h0: "list_all (\<lambda>b. skipped_header (hd b) \<or> block_ok b)
          (record_blocks [] (split_on (CHR 0x0A) trace_noise))" by code_simp
  then have h1: "\<forall>b \<in> set (record_blocks [] (split_on (CHR 0x0A) trace_noise)).
       skipped_header (hd b) \<or> block_ok b" by (simp only: list_all_iff)
  have h2: "no_dead_single trace_noise" by code_simp
  have h3: "no_adoption new_engine trace_noise" by code_simp
  from parseData_returns[OF h1 h2 h3] h0 h2 h3 show ?thesis by (intro conjI)
qed

text \<open>The same trace parsed again by the engine that has parsed it: no stored file gets a new
  line, and no event is triggered.\<close>

lemma parseData_noise_twice:
  "(case parseData new_engine trace_noise of
      (st, evs, err) \<Rightarrow>
        err = None \<and> map fst (filenames st) = [''a.js'', ''b.js'']
        \<and> no_adoption st trace_noise \<and> parseData st trace_noise = (st, [], None))"
  by code_simp


end
